theory Spec2Isabelle
  imports Main "HOL-Library.Word" "HOL-Library.Sublist"
begin

section \<open>Data model of channel.go and of the event types\<close>

text \<open>
  The repository's core is \<^verbatim>\<open>Channel.run\<close>: three goroutines (a reader, a writer and the
  orchestrating body of \<^verbatim>\<open>run\<close>) that communicate through unbuffered Go channels. The
  embedding gives every goroutine a program counter that names the source line it is about
  to execute, and one step function per goroutine. A schedule (a list of ticks) picks which
  goroutine moves next and supplies what the outside world answers at that step: the result
  of \<^verbatim>\<open>parser.Read()\<close>, the item a client hands to \<^verbatim>\<open>writec\<close>, the result of a codec write,
  the select case taken when both are ready, and the moment the hub requests termination.
  A tick that the goroutine cannot take in the current state (it would block) yields
  \<open>None\<close>. Every theorem about "any interleaving" quantifies over all schedules.
\<close>

type_synonym byte = "8 word"

text \<open>\<^verbatim>\<open>Message\<close> and \<^verbatim>\<open>Frame\<close> are Go interfaces; only their getters are visible in the sources.\<close>

datatype Message = Message (GetId: "32 word")

datatype Frame = Frame (GetSystemId: byte) (GetComponentId: byte) (GetMessage: Message)

text \<open>
  An \<^verbatim>\<open>error\<close> value is either a \<^verbatim>\<open>*ParserError\<close> (the type assertion of line 72 succeeds)
  or any other error (end of stream, I/O failure).
\<close>

datatype error = ParserError string | OtherError string

text \<open>A \<^verbatim>\<open>*Channel\<close> pointer, as carried by the events.\<close>

type_synonym chan_ptr = nat

datatype Event =
    EventChannelOpen chan_ptr
  | EventChannelClose chan_ptr
  | EventFrame Frame chan_ptr
  | EventParseError error chan_ptr
  | EventStreamRequested chan_ptr byte byte

text \<open>The state of a Go channel that is only ever closed (or, for \<^verbatim>\<open>writec\<close>, ranged over).\<close>

datatype chan = ChanOpen | ChanClosed

type_synonym Endpoint = nat
type_synonym ReadWriteCloser = nat
type_synonym Parser = nat

record NodeConf =
  Dialect :: "nat option"
  InKey :: "byte list option"
  OutSystemId :: byte
  OutVersion :: int
  OutComponentId :: byte
  OutKey :: "byte list option"

text \<open>
  The fields of \<^verbatim>\<open>Node\<close> that channel.go reads. \<open>nodeStreamRequest\<close> is the optional frame
  observer; its \<^verbatim>\<open>onEventFrame\<close> is outside the sources and is taken as a parameter: the list
  of events it pushes to \<^verbatim>\<open>eventsOut\<close> while it runs.
\<close>

record Node =
  conf :: NodeConf
  nodeStreamRequest :: "(Event \<Rightarrow> Event list) option"

record ParserConf =
  Reader :: ReadWriteCloser
  Writer :: ReadWriteCloser
  PDialect :: "nat option"
  PInKey :: "byte list option"
  POutSystemId :: byte
  POutVersion :: int
  POutComponentId :: byte
  OutSignatureLinkId :: byte
  POutKey :: "byte list option"

record Channel =
  Endpoint :: Endpoint
  label :: string
  rwc :: ReadWriteCloser
  node :: Node
  parser :: Parser
  writec :: chan
  terminate :: chan
  donec :: chan

section \<open>newChannel\<close>

text \<open>
  \<^verbatim>\<open>NewParser\<close> and \<^verbatim>\<open>randomByte\<close> are not in the sources; both are parameters. What the
  construction could touch is threaded through as a \<open>world\<close>: the operations performed on raw
  streams so far, the number of goroutines started, and the state of the random generator.
\<close>

datatype io_op = StreamRead ReadWriteCloser | StreamWrite ReadWriteCloser | StreamClose ReadWriteCloser

record world =
  rng :: nat
  stream_io :: "io_op list"
  goroutines :: nat

definition newChannel ::
  "(ParserConf \<Rightarrow> world \<Rightarrow> (error + Parser) \<times> world) \<Rightarrow> (world \<Rightarrow> byte \<times> world) \<Rightarrow>
   Node \<Rightarrow> Endpoint \<Rightarrow> string \<Rightarrow> ReadWriteCloser \<Rightarrow> world \<Rightarrow> (error + Channel) \<times> world" where
  "newChannel NewParser randomByte n e lbl rw w =
     (let (b, w1) = randomByte w;
          (res, w2) = NewParser \<lparr>Reader = rw, Writer = rw,
                        PDialect = Dialect (conf n), PInKey = InKey (conf n),
                        POutSystemId = OutSystemId (conf n), POutVersion = OutVersion (conf n),
                        POutComponentId = OutComponentId (conf n),
                        OutSignatureLinkId = b, POutKey = OutKey (conf n)\<rparr> w1
      in case res of
           Inl err \<Rightarrow> (Inl err, w2)
         | Inr p \<Rightarrow> (Inr \<lparr>Endpoint = e, label = lbl, rwc = rw, node = n, parser = p,
                          writec = ChanOpen, terminate = ChanOpen, donec = ChanOpen\<rparr>, w2))"

text \<open>\<^verbatim>\<open>String\<close> returns the channel label.\<close>

definition String :: "Channel \<Rightarrow> string" where
  "String c = label c"

section \<open>Channel.run as three interleaved goroutines\<close>

datatype task = ReaderTask | WriterTask | Orchestrator

text \<open>What travels through \<^verbatim>\<open>writec\<close> (a \<^verbatim>\<open>chan interface{}\<close>): the type switch of line 94
  tries \<^verbatim>\<open>Message\<close> first, then \<^verbatim>\<open>Frame\<close>; anything else matches no case.\<close>

datatype item = ItemMessage Message | ItemFrame Frame | ItemOther nat

text \<open>The observable actions, logged in program order together with the goroutine that did them.\<close>

datatype action =
    Publish Event
  | ObserverPublish Event
  | OnEventFrame Event
  | ParserRead "error + Frame"
  | Recv item
  | WriteMessage Message "error option"
  | WriteFrame Frame "error option"
  | Go task
  | RecvReaderDone
  | RecvTerminate
  | SendChannelClose
  | CloseWritec
  | RecvWriterDone
  | RwcClose
  | CloseDone

text \<open>
  Program counters. Reader: \<open>R_Open\<close> is the send of line 66, \<open>R_Read\<close> the call of line 69,
  \<open>R_ParseError\<close> the send of line 73, \<open>R_Observer\<close> the call of line 82, \<open>R_InObserver\<close> the
  observer running with the events it has still to send, \<open>R_Frame\<close> the send of line 85.
  Writer: \<open>W_Range\<close> is the receive of line 93, \<open>W_Switch\<close> the type switch of line 94 with the
  item received. Orchestrator: \<open>O_GoReader\<close> and \<open>O_GoWriter\<close> are the \<^verbatim>\<open>go\<close> statements of
  lines 61 and 90, \<open>O_Select\<close> the select of line 104, \<open>OA_Publish\<close> to \<open>OA_RwcClose\<close> lines
  106 to 114, \<open>OB_Publish\<close> to \<open>OB_ReaderDone\<close> lines 117 to 123.
\<close>

datatype reader_pc =
    R_NotStarted
  | R_Open
  | R_Read
  | R_ParseError error
  | R_Observer Frame
  | R_InObserver Frame "Event list"
  | R_Frame Frame
  | R_Returned

datatype writer_pc =
    W_NotStarted
  | W_Range
  | W_Switch item
  | W_Returned

datatype orch_pc =
    O_GoReader
  | O_GoWriter
  | O_Select
  | OA_Publish
  | OA_Report
  | OA_Terminate
  | OA_CloseWritec
  | OA_WriterDone
  | OA_RwcClose
  | OB_Publish
  | OB_CloseWritec
  | OB_WriterDone
  | OB_RwcClose
  | OB_ReaderDone
  | O_Defer
  | O_Returned

record run_state =
  ch :: Channel
  rpc :: reader_pc
  wpc :: writer_pc
  opc :: orch_pc
  readerDone :: chan
  writerDone :: chan
  panicked :: bool
  trace :: "(task \<times> action) list"

datatype reader_tick = RSend | RRead "error + Frame" | RCall | RReturn

datatype writer_tick = WRecv item | WSwitch "error option" | WRangeEnd

datatype orch_tick = ONext | OSelReaderDone | OSelTerminate

datatype tick = ReaderDoes reader_tick | WriterDoes writer_tick | OrchDoes orch_tick | HubTerminates

definition run_init :: "Channel \<Rightarrow> run_state" where
  "run_init c = \<lparr>ch = c, rpc = R_NotStarted, wpc = W_NotStarted, opc = O_GoReader,
                 readerDone = ChanOpen, writerDone = ChanOpen, panicked = False, trace = []\<rparr>"

definition logs :: "task \<Rightarrow> action list \<Rightarrow> run_state \<Rightarrow> run_state" where
  "logs t as s = s\<lparr>trace := trace s @ map (Pair t) as\<rparr>"

subsection \<open>The reader goroutine (lines 61 to 87)\<close>

text \<open>
  \<open>RSend\<close>: the consumer of \<^verbatim>\<open>eventsOut\<close> takes the event the reader is offering.
  \<open>RRead r\<close>: \<^verbatim>\<open>parser.Read()\<close> returns \<open>r\<close>. \<open>RCall\<close>/\<open>RReturn\<close>: the observer is entered and left.
  The test of line 81 is folded into the read step. A \<^verbatim>\<open>return\<close> runs the deferred
  \<^verbatim>\<open>close(readerDone)\<close> in the same step.
\<close>

fun reader_next ::
  "chan_ptr \<Rightarrow> (Event \<Rightarrow> Event list) option \<Rightarrow> reader_pc \<Rightarrow> reader_tick \<Rightarrow>
   (reader_pc \<times> action list) option" where
  "reader_next self obs R_Open RSend = Some (R_Read, [Publish (EventChannelOpen self)])"
| "reader_next self obs R_Read (RRead (Inl (ParserError m))) =
     Some (R_ParseError (ParserError m), [ParserRead (Inl (ParserError m))])"
| "reader_next self obs R_Read (RRead (Inl (OtherError m))) =
     Some (R_Returned, [ParserRead (Inl (OtherError m))])"
| "reader_next self obs R_Read (RRead (Inr f)) =
     Some ((case obs of None \<Rightarrow> R_Frame f | Some on \<Rightarrow> R_Observer f), [ParserRead (Inr f)])"
| "reader_next self obs (R_ParseError e) RSend = Some (R_Read, [Publish (EventParseError e self)])"
| "reader_next self (Some on) (R_Observer f) RCall =
     Some (R_InObserver f (on (EventFrame f self)), [OnEventFrame (EventFrame f self)])"
| "reader_next self obs (R_InObserver f (e # es)) RSend = Some (R_InObserver f es, [ObserverPublish e])"
| "reader_next self obs (R_InObserver f []) RReturn = Some (R_Frame f, [])"
| "reader_next self obs (R_Frame f) RSend = Some (R_Read, [Publish (EventFrame f self)])"
| "reader_next self obs pc t = None"

definition reader_step :: "chan_ptr \<Rightarrow> reader_tick \<Rightarrow> run_state \<Rightarrow> run_state option" where
  "reader_step self t s =
     (case reader_next self (nodeStreamRequest (node (ch s))) (rpc s) t of
        None \<Rightarrow> None
      | Some (pc, as) \<Rightarrow>
          Some (logs ReaderTask as
                  (s\<lparr>rpc := pc,
                     readerDone := (if pc = R_Returned then ChanClosed else readerDone s)\<rparr>)))"

subsection \<open>The writer goroutine (lines 90 to 102)\<close>

text \<open>
  \<open>WRecv it\<close>: a client hands \<open>it\<close> over on \<^verbatim>\<open>writec\<close>. \<open>WSwitch r\<close>: the type switch runs, and
  \<open>r\<close> is what the codec's write returns if one is performed; the source discards it.
  \<open>WRangeEnd\<close>: the range loop sees the closed channel; the return closes \<^verbatim>\<open>writerDone\<close>.
\<close>

fun writer_next :: "chan \<Rightarrow> writer_pc \<Rightarrow> writer_tick \<Rightarrow> (writer_pc \<times> action list) option" where
  "writer_next ChanOpen W_Range (WRecv it) = Some (W_Switch it, [Recv it])"
| "writer_next ChanClosed W_Range WRangeEnd = Some (W_Returned, [])"
| "writer_next wc (W_Switch (ItemMessage m)) (WSwitch r) = Some (W_Range, [WriteMessage m r])"
| "writer_next wc (W_Switch (ItemFrame f)) (WSwitch r) = Some (W_Range, [WriteFrame f r])"
| "writer_next wc (W_Switch (ItemOther x)) (WSwitch r) = Some (W_Range, [])"
| "writer_next wc pc t = None"

definition writer_step :: "writer_tick \<Rightarrow> run_state \<Rightarrow> run_state option" where
  "writer_step t s =
     (case writer_next (writec (ch s)) (wpc s) t of
        None \<Rightarrow> None
      | Some (pc, as) \<Rightarrow>
          Some (logs WriterTask as
                  (s\<lparr>wpc := pc,
                     writerDone := (if pc = W_Returned then ChanClosed else writerDone s)\<rparr>)))"

subsection \<open>The body of run (lines 57 to 125)\<close>

text \<open>
  Closing a Go channel that is already closed panics. The deferred \<^verbatim>\<open>close(ch.done)\<close> of
  line 58 still runs while the goroutine panics, so \<^verbatim>\<open>done\<close> ends closed (closing it a second
  time panics again); nothing recovers, the program dies and takes no further step. The
  model records this in \<open>panicked\<close>. The pcs \<open>OA_\<close> are the case of line 105, the
  pcs \<open>OB_\<close> the case of line 116; \<open>O_Defer\<close> is the deferred \<^verbatim>\<open>close(ch.done)\<close>.
\<close>

definition panic :: "run_state \<Rightarrow> run_state option" where
  "panic s = Some (s\<lparr>panicked := True, ch := (ch s)\<lparr>donec := ChanClosed\<rparr>\<rparr>)"

definition goto :: "orch_pc \<Rightarrow> action list \<Rightarrow> run_state \<Rightarrow> run_state option" where
  "goto pc as s = Some (logs Orchestrator as (s\<lparr>opc := pc\<rparr>))"

definition close_writec :: "orch_pc \<Rightarrow> run_state \<Rightarrow> run_state option" where
  "close_writec pc s =
     (if writec (ch s) = ChanClosed then panic s
      else goto pc [CloseWritec] (s\<lparr>ch := (ch s)\<lparr>writec := ChanClosed\<rparr>\<rparr>))"

definition close_done :: "orch_pc \<Rightarrow> run_state \<Rightarrow> run_state option" where
  "close_done pc s =
     (if donec (ch s) = ChanClosed then panic s
      else goto pc [CloseDone] (s\<lparr>ch := (ch s)\<lparr>donec := ChanClosed\<rparr>\<rparr>))"

text \<open>
  \<open>ONext\<close> runs the statement the orchestrator is at, when it can proceed. A send on
  \<^verbatim>\<open>eventsOut\<close> or \<^verbatim>\<open>channelClose\<close> is the step at which the receiving side takes the value.
  At the \<^verbatim>\<open>select\<close> of line 104, \<open>OSelReaderDone\<close> and \<open>OSelTerminate\<close> take the case whose
  channel is ready; when both are ready either may be taken, as in Go.
\<close>

fun orch_step :: "chan_ptr \<Rightarrow> orch_tick \<Rightarrow> run_state \<Rightarrow> run_state option" where
  "orch_step self ONext s =
     (case opc s of
        O_GoReader \<Rightarrow> goto O_GoWriter [Go ReaderTask] (s\<lparr>rpc := R_Open\<rparr>)
      | O_GoWriter \<Rightarrow> goto O_Select [Go WriterTask] (s\<lparr>wpc := W_Range\<rparr>)
      | O_Select \<Rightarrow> None
      | OA_Publish \<Rightarrow> goto OA_Report [Publish (EventChannelClose self)] s
      | OA_Report \<Rightarrow> goto OA_Terminate [SendChannelClose] s
      | OA_Terminate \<Rightarrow>
          (if terminate (ch s) = ChanClosed then goto OA_CloseWritec [RecvTerminate] s else None)
      | OA_CloseWritec \<Rightarrow> close_writec OA_WriterDone s
      | OA_WriterDone \<Rightarrow>
          (if writerDone s = ChanClosed then goto OA_RwcClose [RecvWriterDone] s else None)
      | OA_RwcClose \<Rightarrow> goto O_Defer [RwcClose] s
      | OB_Publish \<Rightarrow> goto OB_CloseWritec [Publish (EventChannelClose self)] s
      | OB_CloseWritec \<Rightarrow> close_writec OB_WriterDone s
      | OB_WriterDone \<Rightarrow>
          (if writerDone s = ChanClosed then goto OB_RwcClose [RecvWriterDone] s else None)
      | OB_RwcClose \<Rightarrow> goto OB_ReaderDone [RwcClose] s
      | OB_ReaderDone \<Rightarrow>
          (if readerDone s = ChanClosed then goto O_Defer [RecvReaderDone] s else None)
      | O_Defer \<Rightarrow> close_done O_Returned s
      | O_Returned \<Rightarrow> None)"
| "orch_step self OSelReaderDone s =
     (if opc s = O_Select \<and> readerDone s = ChanClosed
      then goto OA_Publish [RecvReaderDone] s else None)"
| "orch_step self OSelTerminate s =
     (if opc s = O_Select \<and> terminate (ch s) = ChanClosed
      then goto OB_Publish [RecvTerminate] s else None)"

subsection \<open>Interleaving\<close>

text \<open>
  The hub's termination request is modelled as the closing of \<^verbatim>\<open>ch.terminate\<close> (node.go is
  not among the sources); it may arrive at any point of the schedule.
\<close>

definition step :: "chan_ptr \<Rightarrow> tick \<Rightarrow> run_state \<Rightarrow> run_state option" where
  "step self t s =
     (if panicked s then None
      else case t of
             ReaderDoes rt \<Rightarrow> reader_step self rt s
           | WriterDoes wt \<Rightarrow> writer_step wt s
           | OrchDoes ot \<Rightarrow> orch_step self ot s
           | HubTerminates \<Rightarrow> Some (s\<lparr>ch := (ch s)\<lparr>terminate := ChanClosed\<rparr>\<rparr>))"

fun exec :: "chan_ptr \<Rightarrow> tick list \<Rightarrow> run_state \<Rightarrow> run_state option" where
  "exec self [] s = Some s"
| "exec self (t # ts) s = (case step self t s of None \<Rightarrow> None | Some s' \<Rightarrow> exec self ts s')"

subsection \<open>Reading the log\<close>

definition by_task :: "task \<Rightarrow> (task \<times> action) list \<Rightarrow> action list" where
  "by_task t tr = map snd (filter (\<lambda>x. fst x = t) tr)"

fun event_of :: "action \<Rightarrow> Event list" where
  "event_of (Publish e) = [e]"
| "event_of (ObserverPublish e) = [e]"
| "event_of a = []"

text \<open>Everything that reached \<^verbatim>\<open>eventsOut\<close>, in the order the consumer received it.\<close>

definition events_out :: "(task \<times> action) list \<Rightarrow> Event list" where
  "events_out tr = concat (map (event_of \<circ> snd) tr)"


section \<open>Specification-side definitions\<close>

subsection \<open>What the orchestrator's program counter says about the shared state\<close>

fun writec_closed_at :: "orch_pc \<Rightarrow> bool" where
  "writec_closed_at O_GoReader = False"
| "writec_closed_at O_GoWriter = False"
| "writec_closed_at O_Select = False"
| "writec_closed_at OA_Publish = False"
| "writec_closed_at OA_Report = False"
| "writec_closed_at OA_Terminate = False"
| "writec_closed_at OA_CloseWritec = False"
| "writec_closed_at OB_Publish = False"
| "writec_closed_at OB_CloseWritec = False"
| "writec_closed_at pc = True"

fun writer_joined :: "orch_pc \<Rightarrow> bool" where
  "writer_joined OA_RwcClose = True"
| "writer_joined OB_RwcClose = True"
| "writer_joined OB_ReaderDone = True"
| "writer_joined O_Defer = True"
| "writer_joined O_Returned = True"
| "writer_joined pc = False"

fun reader_joined :: "orch_pc \<Rightarrow> bool" where
  "reader_joined O_GoReader = False"
| "reader_joined O_GoWriter = False"
| "reader_joined O_Select = False"
| "reader_joined OB_Publish = False"
| "reader_joined OB_CloseWritec = False"
| "reader_joined OB_WriterDone = False"
| "reader_joined OB_RwcClose = False"
| "reader_joined OB_ReaderDone = False"
| "reader_joined pc = True"

fun terminate_received :: "orch_pc \<Rightarrow> bool" where
  "terminate_received O_GoReader = False"
| "terminate_received O_GoWriter = False"
| "terminate_received O_Select = False"
| "terminate_received OA_Publish = False"
| "terminate_received OA_Report = False"
| "terminate_received OA_Terminate = False"
| "terminate_received pc = True"

fun close_published_at :: "orch_pc \<Rightarrow> bool" where
  "close_published_at O_GoReader = False"
| "close_published_at O_GoWriter = False"
| "close_published_at O_Select = False"
| "close_published_at OA_Publish = False"
| "close_published_at OB_Publish = False"
| "close_published_at pc = True"

fun stream_closed_at :: "orch_pc \<Rightarrow> bool" where
  "stream_closed_at OB_ReaderDone = True"
| "stream_closed_at O_Defer = True"
| "stream_closed_at O_Returned = True"
| "stream_closed_at pc = False"

definition sync_inv :: "run_state \<Rightarrow> bool" where
  "sync_inv s \<longleftrightarrow>
     \<not> panicked s \<and>
     (readerDone s = ChanClosed \<longleftrightarrow> rpc s = R_Returned) \<and>
     (writerDone s = ChanClosed \<longleftrightarrow> wpc s = W_Returned) \<and>
     (writec (ch s) = ChanClosed \<longleftrightarrow> writec_closed_at (opc s)) \<and>
     (donec (ch s) = ChanClosed \<longleftrightarrow> opc s = O_Returned) \<and>
     (rpc s = R_NotStarted \<longleftrightarrow> opc s = O_GoReader) \<and>
     (wpc s = W_NotStarted \<longleftrightarrow> opc s = O_GoReader \<or> opc s = O_GoWriter) \<and>
     (terminate_received (opc s) \<longrightarrow> terminate (ch s) = ChanClosed) \<and>
     (reader_joined (opc s) \<longrightarrow> rpc s = R_Returned) \<and>
     (writer_joined (opc s) \<longrightarrow> wpc s = W_Returned)"

subsection \<open>The two shutdown sequences, as the orchestrator logs them\<close>

definition start_script :: "action list" where
  "start_script = [Go ReaderTask, Go WriterTask]"

definition pathA :: "chan_ptr \<Rightarrow> action list" where
  "pathA self = [RecvReaderDone, Publish (EventChannelClose self), SendChannelClose, RecvTerminate,
                 CloseWritec, RecvWriterDone, RwcClose]"

definition pathB :: "chan_ptr \<Rightarrow> action list" where
  "pathB self = [RecvTerminate, Publish (EventChannelClose self), CloseWritec, RecvWriterDone,
                 RwcClose, RecvReaderDone]"

fun orch_logs :: "chan_ptr \<Rightarrow> orch_pc \<Rightarrow> action list list" where
  "orch_logs self O_GoReader = [[]]"
| "orch_logs self O_GoWriter = [[Go ReaderTask]]"
| "orch_logs self O_Select = [start_script]"
| "orch_logs self OA_Publish = [start_script @ take 1 (pathA self)]"
| "orch_logs self OA_Report = [start_script @ take 2 (pathA self)]"
| "orch_logs self OA_Terminate = [start_script @ take 3 (pathA self)]"
| "orch_logs self OA_CloseWritec = [start_script @ take 4 (pathA self)]"
| "orch_logs self OA_WriterDone = [start_script @ take 5 (pathA self)]"
| "orch_logs self OA_RwcClose = [start_script @ take 6 (pathA self)]"
| "orch_logs self OB_Publish = [start_script @ take 1 (pathB self)]"
| "orch_logs self OB_CloseWritec = [start_script @ take 2 (pathB self)]"
| "orch_logs self OB_WriterDone = [start_script @ take 3 (pathB self)]"
| "orch_logs self OB_RwcClose = [start_script @ take 4 (pathB self)]"
| "orch_logs self OB_ReaderDone = [start_script @ take 5 (pathB self)]"
| "orch_logs self O_Defer = [start_script @ pathA self, start_script @ pathB self]"
| "orch_logs self O_Returned =
     [start_script @ pathA self @ [CloseDone], start_script @ pathB self @ [CloseDone]]"

definition orch_inv :: "chan_ptr \<Rightarrow> run_state \<Rightarrow> bool" where
  "orch_inv self s \<longleftrightarrow> by_task Orchestrator (trace s) \<in> set (orch_logs self (opc s))"

text \<open>How often an action occurs in the log, whoever did it.\<close>

definition count_act :: "action \<Rightarrow> (task \<times> action) list \<Rightarrow> nat" where
  "count_act a tr = length (filter (\<lambda>x. snd x = a) tr)"

definition count_inv :: "chan_ptr \<Rightarrow> run_state \<Rightarrow> bool" where
  "count_inv self s \<longleftrightarrow>
     count_act RwcClose (trace s) = (if stream_closed_at (opc s) then 1 else 0) \<and>
     count_act (Publish (EventChannelClose self)) (trace s) =
       (if close_published_at (opc s) then 1 else 0)"

subsection \<open>A concrete channel and schedules\<close>

definition chan0 :: Channel where
  "chan0 = \<lparr>Endpoint = 0, label = ''tcp'', rwc = 0,
            node = \<lparr>conf = \<lparr>Dialect = None, InKey = None, OutSystemId = 1, OutVersion = 2,
                             OutComponentId = 1, OutKey = None\<rparr>,
                    nodeStreamRequest = None\<rparr>,
            parser = 0, writec = ChanOpen, terminate = ChanOpen, donec = ChanOpen\<rparr>"

definition frame0 :: Frame where
  "frame0 = Frame 1 1 (Message 0)"

text \<open>The reader sees a corrupt frame, a good frame and the end of the stream; the
  orchestrator then shuts down through the case of line 105.\<close>

definition schedA :: "tick list" where
  "schedA = [OrchDoes ONext, OrchDoes ONext, ReaderDoes RSend,
     ReaderDoes (RRead (Inl (ParserError ''crc''))), ReaderDoes RSend,
     ReaderDoes (RRead (Inr frame0)), ReaderDoes RSend,
     ReaderDoes (RRead (Inl (OtherError ''EOF''))),
     OrchDoes OSelReaderDone, OrchDoes ONext, OrchDoes ONext, HubTerminates, OrchDoes ONext,
     OrchDoes ONext, WriterDoes WRangeEnd, OrchDoes ONext, OrchDoes ONext, OrchDoes ONext]"

text \<open>The hub asks for termination while the reader is parked in a read; the read fails
  only after the stream has been closed.\<close>

definition schedB :: "tick list" where
  "schedB = [OrchDoes ONext, OrchDoes ONext, ReaderDoes RSend, HubTerminates,
     OrchDoes OSelTerminate, OrchDoes ONext, OrchDoes ONext, WriterDoes WRangeEnd,
     OrchDoes ONext, OrchDoes ONext, ReaderDoes (RRead (Inl (OtherError ''closed''))),
     OrchDoes ONext, OrchDoes ONext]"

text \<open>Both triggers are ready when the orchestrator reaches the select; the
  termination case is taken.\<close>

definition schedBoth :: "tick list" where
  "schedBoth = [OrchDoes ONext, OrchDoes ONext, ReaderDoes RSend,
     ReaderDoes (RRead (Inl (OtherError ''EOF''))), HubTerminates,
     OrchDoes OSelTerminate, OrchDoes ONext, OrchDoes ONext, WriterDoes WRangeEnd,
     OrchDoes ONext, OrchDoes ONext, OrchDoes ONext, OrchDoes ONext]"

subsection \<open>The reader's log, as the specification describes one loop iteration\<close>

text \<open>
  \<open>reader_segment\<close> follows the specification's words for one result of the read: a
  parse error is published and the loop goes on; any other error ends the loop with no
  event; a frame is handed to the observer, if there is one, and then published.
  \<open>reader_pending\<close> is what is left of the current iteration at a program counter.
\<close>


fun read_of :: "action \<Rightarrow> (error + Frame) list" where
  "read_of (ParserRead r) = [r]"
| "read_of a = []"

definition reads_of :: "action list \<Rightarrow> (error + Frame) list" where
  "reads_of as = concat (map read_of as)"

fun observer_part :: "chan_ptr \<Rightarrow> (Event \<Rightarrow> Event list) option \<Rightarrow> Frame \<Rightarrow> action list" where
  "observer_part self None f = []"
| "observer_part self (Some on) f =
     OnEventFrame (EventFrame f self) # map ObserverPublish (on (EventFrame f self))"

fun reader_pending :: "chan_ptr \<Rightarrow> (Event \<Rightarrow> Event list) option \<Rightarrow> reader_pc \<Rightarrow> action list" where
  "reader_pending self obs R_NotStarted = [Publish (EventChannelOpen self)]"
| "reader_pending self obs R_Open = [Publish (EventChannelOpen self)]"
| "reader_pending self obs R_Read = []"
| "reader_pending self obs (R_ParseError e) = [Publish (EventParseError e self)]"
| "reader_pending self obs (R_Observer f) = observer_part self obs f @ [Publish (EventFrame f self)]"
| "reader_pending self obs (R_InObserver f es) = map ObserverPublish es @ [Publish (EventFrame f self)]"
| "reader_pending self obs (R_Frame f) = [Publish (EventFrame f self)]"
| "reader_pending self obs R_Returned = []"

fun reader_segment :: "chan_ptr \<Rightarrow> (Event \<Rightarrow> Event list) option \<Rightarrow> error + Frame \<Rightarrow> action list" where
  "reader_segment self obs (Inl (ParserError m)) =
     [ParserRead (Inl (ParserError m)), Publish (EventParseError (ParserError m) self)]"
| "reader_segment self obs (Inl (OtherError m)) = [ParserRead (Inl (OtherError m))]"
| "reader_segment self obs (Inr f) =
     ParserRead (Inr f) # observer_part self obs f @ [Publish (EventFrame f self)]"

definition reader_script :: "chan_ptr \<Rightarrow> (Event \<Rightarrow> Event list) option \<Rightarrow> (error + Frame) list \<Rightarrow> action list" where
  "reader_script self obs rs = Publish (EventChannelOpen self) # concat (map (reader_segment self obs) rs)"

fun is_fatal :: "error + Frame \<Rightarrow> bool" where
  "is_fatal (Inl (OtherError m)) = True"
| "is_fatal r = False"

definition reader_inv :: "chan_ptr \<Rightarrow> (Event \<Rightarrow> Event list) option \<Rightarrow> run_state \<Rightarrow> bool" where
  "reader_inv self obs s \<longleftrightarrow>
     nodeStreamRequest (node (ch s)) = obs \<and>
     by_task ReaderTask (trace s) @ reader_pending self obs (rpc s) =
       reader_script self obs (reads_of (by_task ReaderTask (trace s))) \<and>
     (rpc s = R_Returned \<longleftrightarrow>
        reads_of (by_task ReaderTask (trace s)) \<noteq> [] \<and>
        is_fatal (last (reads_of (by_task ReaderTask (trace s)))))"


subsection \<open>The writer's codec call for an item\<close>

fun write_call :: "item \<Rightarrow> error option \<Rightarrow> action list" where
  "write_call (ItemMessage m) r = [WriteMessage m r]"
| "write_call (ItemFrame f) r = [WriteFrame f r]"
| "write_call (ItemOther x) r = []"

subsection \<open>More concrete data\<close>




definition schedParseError :: "tick list" where
  "schedParseError = [OrchDoes ONext, OrchDoes ONext, ReaderDoes RSend,
     ReaderDoes (RRead (Inl (ParserError ''crc''))), HubTerminates, OrchDoes OSelTerminate]"

definition schedWrite :: "tick list" where
  "schedWrite = [OrchDoes ONext, OrchDoes ONext, ReaderDoes RSend,
     WriterDoes (WRecv (ItemMessage (Message 0)))]"

definition schedOther :: "tick list" where
  "schedOther = [OrchDoes ONext, OrchDoes ONext, WriterDoes (WRecv (ItemOther 5))]"

text \<open>The termination request wins the select while the reader has not yet published
  ChannelOpen; the reader then publishes ChannelOpen and a frame.\<close>

definition schedCloseFirst :: "tick list" where
  "schedCloseFirst = [OrchDoes ONext, OrchDoes ONext, HubTerminates, OrchDoes OSelTerminate,
     OrchDoes ONext, ReaderDoes RSend, ReaderDoes (RRead (Inr frame0)), ReaderDoes RSend,
     OrchDoes ONext, WriterDoes WRangeEnd, OrchDoes ONext, OrchDoes ONext,
     ReaderDoes (RRead (Inl (OtherError ''closed''))), OrchDoes ONext, OrchDoes ONext]"

text \<open>A codec constructor that rejects a missing dialect, and a counter as random source.\<close>

definition NewParser0 :: "ParserConf \<Rightarrow> world \<Rightarrow> (error + Parser) \<times> world" where
  "NewParser0 cf w =
     (if PDialect cf = None then (Inl (OtherError ''dialect''), w) else (Inr 3, w))"

definition randomByte0 :: "world \<Rightarrow> byte \<times> world" where
  "randomByte0 w = (of_nat (rng w), w\<lparr>rng := Suc (rng w)\<rparr>)"

definition world0 :: world where
  "world0 = \<lparr>rng = 42, stream_io = [], goroutines = 1\<rparr>"

text \<open>The run \<open>schedB\<close> cut at the read that fails: \<open>schedBpre\<close> ends with the reader parked
  in the read and the stream just closed, \<open>schedBpost\<close> is the failing read and the rest.\<close>

definition schedBpre :: "tick list" where
  "schedBpre = [OrchDoes ONext, OrchDoes ONext, ReaderDoes RSend, HubTerminates,
     OrchDoes OSelTerminate, OrchDoes ONext, OrchDoes ONext, WriterDoes WRangeEnd,
     OrchDoes ONext, OrchDoes ONext]"

definition schedBpost :: "tick list" where
  "schedBpost = [ReaderDoes (RRead (Inl (OtherError ''closed''))), OrchDoes ONext, OrchDoes ONext]"


subsection \<open>The lifecycle pattern of the events a channel publishes itself\<close>

text \<open>
  \<open>published\<close> keeps the events the channel code sends (not those of the observer).
  \<open>lifecycle_pattern\<close> is the regular pattern Open, then Frames and ParseErrors of this
  channel, then Close.
\<close>


fun publish_of :: "action \<Rightarrow> Event list" where
  "publish_of (Publish e) = [e]"
| "publish_of a = []"

definition published :: "action list \<Rightarrow> Event list" where
  "published as = concat (map publish_of as)"

fun is_data :: "chan_ptr \<Rightarrow> Event \<Rightarrow> bool" where
  "is_data self (EventFrame f p) = (p = self)"
| "is_data self (EventParseError e p) = (p = self)"
| "is_data self e = False"

fun lifecycle_pattern :: "chan_ptr \<Rightarrow> Event list \<Rightarrow> bool" where
  "lifecycle_pattern self [] = False"
| "lifecycle_pattern self (e # rest) =
     (e = EventChannelOpen self \<and> rest \<noteq> [] \<and> last rest = EventChannelClose self \<and>
      list_all (is_data self) (butlast rest))"

fun not_on_path_b :: "chan_ptr \<Rightarrow> orch_pc \<Rightarrow> action list \<Rightarrow> bool" where
  "not_on_path_b self OB_Publish lg = False"
| "not_on_path_b self OB_CloseWritec lg = False"
| "not_on_path_b self OB_WriterDone lg = False"
| "not_on_path_b self OB_RwcClose lg = False"
| "not_on_path_b self OB_ReaderDone lg = False"
| "not_on_path_b self O_Defer lg = (lg = start_script @ pathA self)"
| "not_on_path_b self O_Returned lg = (lg = start_script @ pathA self @ [CloseDone])"
| "not_on_path_b self pc lg = True"

definition order_inv :: "chan_ptr \<Rightarrow> run_state \<Rightarrow> bool" where
  "order_inv self s \<longleftrightarrow>
     (not_on_path_b self (opc s) (by_task Orchestrator (trace s)) \<longrightarrow>
        published (map snd (trace s)) =
          published (by_task ReaderTask (trace s)) @ published (by_task Orchestrator (trace s)))"

fun data_of :: "chan_ptr \<Rightarrow> error + Frame \<Rightarrow> Event list" where
  "data_of self (Inl (ParserError m)) = [EventParseError (ParserError m) self]"
| "data_of self (Inl (OtherError m)) = []"
| "data_of self (Inr f) = [EventFrame f self]"


text \<open>What a run has come to: the three program counters, \<^verbatim>\<open>done\<close>, everything the consumer
  of \<^verbatim>\<open>eventsOut\<close> received, and whether that matches the pattern.\<close>

definition outcome ::
  "chan_ptr \<Rightarrow> run_state \<Rightarrow> orch_pc \<times> reader_pc \<times> writer_pc \<times> chan \<times> Event list \<times> bool" where
  "outcome self s = (opc s, rpc s, wpc s, donec (ch s), events_out (trace s),
                     lifecycle_pattern self (events_out (trace s)))"

subsection \<open>A schedule that brings any run to its end\<close>

text \<open>
  \<open>next_tick\<close> picks a step in which the outside world cooperates: the consumer takes the
  pending event, the next read fails, the hub signals termination, the codec write returns.
  \<open>rank\<close> bounds the number of such steps left.
\<close>


definition fatal :: "error + Frame" where
  "fatal = Inl (OtherError ''closed'')"

fun reader_tick_to_finish :: "reader_pc \<Rightarrow> reader_tick" where
  "reader_tick_to_finish R_Read = RRead fatal"
| "reader_tick_to_finish (R_Observer f) = RCall"
| "reader_tick_to_finish (R_InObserver f []) = RReturn"
| "reader_tick_to_finish pc = RSend"

fun reader_rank :: "chan_ptr \<Rightarrow> (Event \<Rightarrow> Event list) option \<Rightarrow> reader_pc \<Rightarrow> nat" where
  "reader_rank self obs R_NotStarted = 2"
| "reader_rank self obs R_Open = 2"
| "reader_rank self obs R_Read = 1"
| "reader_rank self obs (R_ParseError e) = 2"
| "reader_rank self None (R_Observer f) = 4"
| "reader_rank self (Some on) (R_Observer f) = 4 + length (on (EventFrame f self))"
| "reader_rank self obs (R_InObserver f es) = 3 + length es"
| "reader_rank self obs (R_Frame f) = 2"
| "reader_rank self obs R_Returned = 0"

fun writer_rank :: "writer_pc \<Rightarrow> nat" where
  "writer_rank W_NotStarted = 1"
| "writer_rank W_Range = 1"
| "writer_rank (W_Switch it) = 2"
| "writer_rank W_Returned = 0"

fun orch_rank :: "orch_pc \<Rightarrow> nat" where
  "orch_rank O_GoReader = 11"
| "orch_rank O_GoWriter = 10"
| "orch_rank O_Select = 9"
| "orch_rank OA_Publish = 8"
| "orch_rank OA_Report = 7"
| "orch_rank OA_Terminate = 6"
| "orch_rank OA_CloseWritec = 5"
| "orch_rank OA_WriterDone = 4"
| "orch_rank OA_RwcClose = 3"
| "orch_rank OB_Publish = 8"
| "orch_rank OB_CloseWritec = 7"
| "orch_rank OB_WriterDone = 6"
| "orch_rank OB_RwcClose = 5"
| "orch_rank OB_ReaderDone = 4"
| "orch_rank O_Defer = 1"
| "orch_rank O_Returned = 0"

definition rank :: "chan_ptr \<Rightarrow> run_state \<Rightarrow> nat" where
  "rank self s = orch_rank (opc s) + reader_rank self (nodeStreamRequest (node (ch s))) (rpc s) +
                 writer_rank (wpc s) + (if terminate (ch s) = ChanOpen then 1 else 0)"

definition next_tick :: "run_state \<Rightarrow> tick" where
  "next_tick s =
     (if opc s = O_GoReader \<or> opc s = O_GoWriter then OrchDoes ONext
      else if rpc s \<noteq> R_Returned then ReaderDoes (reader_tick_to_finish (rpc s))
      else if terminate (ch s) = ChanOpen then HubTerminates
      else if wpc s \<noteq> W_Range \<and> wpc s \<noteq> W_Returned then WriterDoes (WSwitch None)
      else if opc s = O_Select then OrchDoes OSelReaderDone
      else if (opc s = OA_WriterDone \<or> opc s = OB_WriterDone) \<and> wpc s = W_Range
        then WriterDoes WRangeEnd
      else OrchDoes ONext)"

definition obs_inv :: "run_state \<Rightarrow> bool" where
  "obs_inv s \<longleftrightarrow> (\<forall>f. rpc s = R_Observer f \<longrightarrow> nodeStreamRequest (node (ch s)) \<noteq> None)"


section \<open>Invariants of every interleaving\<close>

lemmas script_defs = start_script_def pathA_def pathB_def


lemma exec_invariant:
  assumes "exec self ts s = Some s'" and "P s"
    and "\<And>t a b. P a \<Longrightarrow> step self t a = Some b \<Longrightarrow> P b"
  shows "P s'"
  using assms(1,2)
proof (induction ts arbitrary: s)
  case Nil
  then show ?case by simp
next
  case (Cons t ts)
  then show ?case using assms(3) by (auto split: option.splits)
qed

lemma step_cases:
  assumes "step self t s = Some s'"
  obtains (reader) rt where "t = ReaderDoes rt" "reader_step self rt s = Some s'"
  | (writer) wt where "t = WriterDoes wt" "writer_step wt s = Some s'"
  | (orch) ot where "t = OrchDoes ot" "orch_step self ot s = Some s'"
  | (hub) "t = HubTerminates" "s' = s\<lparr>ch := (ch s)\<lparr>terminate := ChanClosed\<rparr>\<rparr>"
  using assms by (cases t) (simp_all add: step_def split: if_splits)

lemma by_task_snoc [simp]:
  "by_task t (tr @ map (Pair t') as) = (if t = t' then by_task t tr @ as else by_task t tr)"
  by (induction as rule: rev_induct) (auto simp: by_task_def simp flip: append_assoc)

lemma by_task_snoc1 [simp]:
  "by_task t (tr @ [(t', a)]) = (if t = t' then by_task t tr @ [a] else by_task t tr)"
  by (simp add: by_task_def)

lemma by_task_Nil [simp]: "by_task t [] = []"
  by (simp add: by_task_def)

subsection \<open>Program counters and channel states agree\<close>

lemma reader_next_pcs:
  "reader_next self obs pc t = Some (pc', as) \<Longrightarrow>
     pc \<noteq> R_NotStarted \<and> pc \<noteq> R_Returned \<and> pc' \<noteq> R_NotStarted"
  by (induction self obs pc t rule: reader_next.induct) (auto split: option.splits)

lemma writer_next_pcs:
  "writer_next wc pc t = Some (pc', as) \<Longrightarrow>
     pc \<noteq> W_NotStarted \<and> pc \<noteq> W_Returned \<and> pc' \<noteq> W_NotStarted \<and>
     (pc' = W_Returned \<longrightarrow> wc = ChanClosed)"
  by (induction wc pc t rule: writer_next.induct) auto

lemma reader_step_fields:
  assumes "reader_step self t s = Some s'"
  shows "ch s' = ch s" "wpc s' = wpc s" "opc s' = opc s" "writerDone s' = writerDone s"
    "panicked s' = panicked s" "rpc s \<noteq> R_NotStarted" "rpc s \<noteq> R_Returned"
    "rpc s' \<noteq> R_NotStarted"
    "readerDone s' = (if rpc s' = R_Returned then ChanClosed else readerDone s)"
  using assms
  by (auto simp: reader_step_def logs_def split: option.splits dest: reader_next_pcs)

lemma reader_step_sync: "sync_inv s \<Longrightarrow> reader_step self t s = Some s' \<Longrightarrow> sync_inv s'"
  apply (frule reader_step_fields(1))
  apply (frule reader_step_fields(2))
  apply (frule reader_step_fields(3))
  apply (frule reader_step_fields(4))
  apply (frule reader_step_fields(5))
  apply (frule reader_step_fields(6))
  apply (frule reader_step_fields(7))
  apply (frule reader_step_fields(8))
  apply (frule reader_step_fields(9))
  apply (simp add: sync_inv_def)
  done

lemma writer_step_fields:
  assumes "writer_step t s = Some s'"
  shows "ch s' = ch s" "rpc s' = rpc s" "opc s' = opc s" "readerDone s' = readerDone s"
    "panicked s' = panicked s" "wpc s \<noteq> W_NotStarted" "wpc s \<noteq> W_Returned"
    "wpc s' \<noteq> W_NotStarted"
    "writerDone s' = (if wpc s' = W_Returned then ChanClosed else writerDone s)"
    "wpc s' = W_Returned \<longrightarrow> writec (ch s) = ChanClosed"
  using assms
  by (auto simp: writer_step_def logs_def split: option.splits dest: writer_next_pcs)

lemma writer_step_sync: "sync_inv s \<Longrightarrow> writer_step t s = Some s' \<Longrightarrow> sync_inv s'"
  apply (frule writer_step_fields(1))
  apply (frule writer_step_fields(2))
  apply (frule writer_step_fields(3))
  apply (frule writer_step_fields(4))
  apply (frule writer_step_fields(5))
  apply (frule writer_step_fields(6))
  apply (frule writer_step_fields(7))
  apply (frule writer_step_fields(8))
  apply (frule writer_step_fields(9))
  apply (frule writer_step_fields(10))
  apply (simp add: sync_inv_def)
  done

lemmas orch_unfold = goto_def panic_def logs_def close_writec_def close_done_def

lemma orch_step_sync: "sync_inv s \<Longrightarrow> orch_step self t s = Some s' \<Longrightarrow> sync_inv s'"
  apply (cases t; cases "opc s")
  apply (simp_all add: orch_unfold split: if_splits)
  apply (clarsimp simp: sync_inv_def)+
  done

lemma step_sync:
  assumes "sync_inv s" and "step self t s = Some s'"
  shows "sync_inv s'"
  using assms(2)
proof (cases rule: step_cases)
  case (reader rt)
  with assms(1) show ?thesis by (blast intro: reader_step_sync)
next
  case (writer wt)
  with assms(1) show ?thesis by (blast intro: writer_step_sync)
next
  case (orch ot)
  with assms(1) show ?thesis by (blast intro: orch_step_sync)
next
  case hub
  with assms(1) show ?thesis by (simp add: sync_inv_def)
qed

lemma reachable_sync:
  assumes "writec c = ChanOpen" and "donec c = ChanOpen"
    and "exec self ts (run_init c) = Some s"
  shows "sync_inv s"
proof (rule exec_invariant[where P = sync_inv, OF assms(3)])
  show "sync_inv (run_init c)"
    using assms(1,2) by (simp add: sync_inv_def run_init_def)
  show "\<And>t a b. sync_inv a \<Longrightarrow> step self t a = Some b \<Longrightarrow> sync_inv b"
    by (rule step_sync)
qed

text \<open>A run on a freshly built channel never closes a closed Go channel, and \<^verbatim>\<open>done\<close> is
  closed exactly when \<^verbatim>\<open>run\<close> has returned, with both goroutines joined.\<close>

lemma run_never_panics:
  assumes "writec c = ChanOpen" and "donec c = ChanOpen"
    and "exec self ts (run_init c) = Some s"
  shows "\<not> panicked s"
  using reachable_sync[OF assms] by (simp add: sync_inv_def)

lemma completion_joins_both:
  assumes "writec c = ChanOpen" and "donec c = ChanOpen"
    and "exec self ts (run_init c) = Some s"
  shows "donec (ch s) = ChanClosed \<longleftrightarrow> opc s = O_Returned"
    and "opc s = O_Returned \<Longrightarrow> rpc s = R_Returned \<and> wpc s = W_Returned"
  using reachable_sync[OF assms] by (simp_all add: sync_inv_def)

subsection \<open>The orchestrator's log is determined by its program counter\<close>

lemma reader_step_orch: "orch_inv self s \<Longrightarrow> reader_step self t s = Some s' \<Longrightarrow> orch_inv self s'"
  by (auto simp: reader_step_def logs_def orch_inv_def split: option.splits)

lemma writer_step_orch: "orch_inv self s \<Longrightarrow> writer_step t s = Some s' \<Longrightarrow> orch_inv self s'"
  by (auto simp: writer_step_def logs_def orch_inv_def split: option.splits)

lemma orch_step_orch: "orch_inv self s \<Longrightarrow> orch_step self t s = Some s' \<Longrightarrow> orch_inv self s'"
  apply (cases t; cases "opc s")
  apply (simp_all add: orch_unfold split: if_splits)
  apply (auto simp: orch_inv_def start_script_def pathA_def pathB_def)
  done

lemma step_orch:
  assumes "orch_inv self s" and "step self t s = Some s'"
  shows "orch_inv self s'"
  using assms(2)
proof (cases rule: step_cases)
  case (reader rt)
  with assms(1) show ?thesis by (blast intro: reader_step_orch)
next
  case (writer wt)
  with assms(1) show ?thesis by (blast intro: writer_step_orch)
next
  case (orch ot)
  with assms(1) show ?thesis by (blast intro: orch_step_orch)
next
  case hub
  with assms(1) show ?thesis by (simp add: orch_inv_def)
qed

lemma reachable_orch:
  assumes "exec self ts (run_init c) = Some s"
  shows "orch_inv self s"
proof (rule exec_invariant[where P = "orch_inv self", OF assms])
  show "orch_inv self (run_init c)"
    by (simp add: orch_inv_def run_init_def)
  show "\<And>t a b. orch_inv self a \<Longrightarrow> step self t a = Some b \<Longrightarrow> orch_inv self b"
    by (rule step_orch)
qed

subsection \<open>How often the stream is closed and ChannelClose is published\<close>

lemma count_act_snoc [simp]:
  "count_act a (tr @ map (Pair t) as) = count_act a tr + length (filter (\<lambda>x. x = a) as)"
  by (simp add: count_act_def filter_map comp_def)

lemma count_act_snoc1 [simp]:
  "count_act a (tr @ [(t, b)]) = count_act a tr + (if b = a then 1 else 0)"
  by (simp add: count_act_def)

lemma count_act_Nil [simp]: "count_act a [] = 0"
  by (simp add: count_act_def)

lemma reader_next_acts:
  "reader_next self obs pc t = Some (pc', as) \<Longrightarrow>
     filter (\<lambda>x. x = RwcClose) as = [] \<and> filter (\<lambda>x. x = Publish (EventChannelClose p)) as = []"
  by (induction self obs pc t rule: reader_next.induct) (auto split: option.splits)

lemma writer_next_acts:
  "writer_next wc pc t = Some (pc', as) \<Longrightarrow>
     filter (\<lambda>x. x = RwcClose) as = [] \<and> filter (\<lambda>x. x = Publish e) as = []"
  by (induction wc pc t rule: writer_next.induct) auto

lemma reader_step_count: "count_inv self s \<Longrightarrow> reader_step self t s = Some s' \<Longrightarrow> count_inv self s'"
  by (auto simp: reader_step_def logs_def count_inv_def split: option.splits
      dest!: reader_next_acts[where p = self])

lemma writer_step_count: "count_inv self s \<Longrightarrow> writer_step t s = Some s' \<Longrightarrow> count_inv self s'"
  by (auto simp: writer_step_def logs_def count_inv_def split: option.splits
      dest!: writer_next_acts[where e = "EventChannelClose self"])

lemma orch_step_count: "count_inv self s \<Longrightarrow> orch_step self t s = Some s' \<Longrightarrow> count_inv self s'"
  apply (cases t; cases "opc s")
  apply (simp_all add: orch_unfold split: if_splits)
  apply (clarsimp simp: count_inv_def)+
  done

lemma step_count:
  assumes "count_inv self s" and "step self t s = Some s'"
  shows "count_inv self s'"
  using assms(2)
proof (cases rule: step_cases)
  case (reader rt)
  with assms(1) show ?thesis by (blast intro: reader_step_count)
next
  case (writer wt)
  with assms(1) show ?thesis by (blast intro: writer_step_count)
next
  case (orch ot)
  with assms(1) show ?thesis by (blast intro: orch_step_count)
next
  case hub
  with assms(1) show ?thesis by (simp add: count_inv_def)
qed

lemma reachable_count:
  assumes "exec self ts (run_init c) = Some s"
  shows "count_inv self s"
proof (rule exec_invariant[where P = "count_inv self", OF assms])
  show "count_inv self (run_init c)"
    by (simp add: count_inv_def run_init_def)
  show "\<And>t a b. count_inv self a \<Longrightarrow> step self t a = Some b \<Longrightarrow> count_inv self b"
    by (rule step_count)
qed


subsection \<open>The reader's log follows the script\<close>

lemma reads_of_append [simp]: "reads_of (xs @ ys) = reads_of xs @ reads_of ys"
  by (simp add: reads_of_def)

lemma reads_of_Nil [simp]: "reads_of [] = []"
  by (simp add: reads_of_def)

lemma reader_script_snoc [simp]:
  "reader_script self obs (rs @ [r]) = reader_script self obs rs @ reader_segment self obs r"
  by (simp add: reader_script_def)

lemma reader_next_script:
  "reader_next self obs pc t = Some (pc', as) \<Longrightarrow>
     (reads_of as = [] \<and> as @ reader_pending self obs pc' = reader_pending self obs pc \<and>
      pc' \<noteq> R_Returned) \<or>
     (\<exists>r. pc = R_Read \<and> reads_of as = [r] \<and>
          as @ reader_pending self obs pc' = reader_segment self obs r \<and>
          (pc' = R_Returned \<longleftrightarrow> is_fatal r))"
  by (induction self obs pc t rule: reader_next.induct)
     (auto simp: reads_of_def split: option.splits)

lemma reader_step_reader:
  assumes "reader_inv self obs s" and "reader_step self t s = Some s'"
  shows "reader_inv self obs s'"
proof -
  from assms(1) have n: "nodeStreamRequest (node (ch s)) = obs"
    by (simp add: reader_inv_def)
  from assms(2) n obtain pc' as where
    nx: "reader_next self obs (rpc s) t = Some (pc', as)"
    and s': "s' = logs ReaderTask as (s\<lparr>rpc := pc',
               readerDone := (if pc' = R_Returned then ChanClosed else readerDone s)\<rparr>)"
    by (auto simp: reader_step_def split: option.splits)
  have nr: "rpc s \<noteq> R_Returned"
    using reader_next_pcs[OF nx] by simp
  let ?lg = "by_task ReaderTask (trace s)"
  have lg': "by_task ReaderTask (trace s') = ?lg @ as" and pc: "rpc s' = pc'"
    and n': "nodeStreamRequest (node (ch s')) = obs"
    using s' n by (simp_all add: logs_def)
  from assms(1) have eq: "?lg @ reader_pending self obs (rpc s) = reader_script self obs (reads_of ?lg)"
    and nf: "\<not> (reads_of ?lg \<noteq> [] \<and> is_fatal (last (reads_of ?lg)))"
    using nr by (simp_all add: reader_inv_def)
  from reader_next_script[OF nx] show ?thesis
  proof
    assume a: "reads_of as = [] \<and> as @ reader_pending self obs pc' = reader_pending self obs (rpc s) \<and>
      pc' \<noteq> R_Returned"
    then have "(?lg @ as) @ reader_pending self obs pc' = reader_script self obs (reads_of (?lg @ as))"
      using eq by simp
    with a nf n' show ?thesis
      by (simp add: reader_inv_def lg' pc)
  next
    assume "\<exists>r. rpc s = R_Read \<and> reads_of as = [r] \<and>
          as @ reader_pending self obs pc' = reader_segment self obs r \<and>
          (pc' = R_Returned \<longleftrightarrow> is_fatal r)"
    then obtain r where b: "rpc s = R_Read" "reads_of as = [r]"
      "as @ reader_pending self obs pc' = reader_segment self obs r"
      "pc' = R_Returned \<longleftrightarrow> is_fatal r"
      by blast
    from eq b(1) have "?lg = reader_script self obs (reads_of ?lg)"
      by simp
    then have "(?lg @ as) @ reader_pending self obs pc' = reader_script self obs (reads_of (?lg @ as))"
      using b(2,3) by simp
    with b n' show ?thesis
      by (simp add: reader_inv_def lg' pc)
  qed
qed

lemma writer_step_reader: "reader_inv self obs s \<Longrightarrow> writer_step t s = Some s' \<Longrightarrow> reader_inv self obs s'"
  by (auto simp: writer_step_def logs_def reader_inv_def split: option.splits)

lemma orch_step_reader:
  "sync_inv s \<Longrightarrow> reader_inv self obs s \<Longrightarrow> orch_step self t s = Some s' \<Longrightarrow> reader_inv self obs s'"
  apply (cases t; cases "opc s")
  apply (simp_all add: orch_unfold split: if_splits)
  apply (clarsimp simp: reader_inv_def sync_inv_def)+
  done


lemma step_reader:
  assumes "sync_inv s" and "reader_inv self obs s" and "step self t s = Some s'"
  shows "reader_inv self obs s'"
  using assms(3)
proof (cases rule: step_cases)
  case (reader rt)
  with assms(2) show ?thesis by (blast intro: reader_step_reader)
next
  case (writer wt)
  with assms(2) show ?thesis by (blast intro: writer_step_reader)
next
  case (orch ot)
  with assms(1,2) show ?thesis by (blast intro: orch_step_reader)
next
  case hub
  with assms(2) show ?thesis by (simp add: reader_inv_def)
qed

lemma reachable_reader:
  assumes "writec c = ChanOpen" and "donec c = ChanOpen"
    and "exec self ts (run_init c) = Some s"
  shows "reader_inv self (nodeStreamRequest (node c)) s"
proof -
  let ?P = "\<lambda>s. sync_inv s \<and> reader_inv self (nodeStreamRequest (node c)) s"
  have "?P s"
  proof (rule exec_invariant[where P = ?P, OF assms(3)])
    show "?P (run_init c)"
      using assms(1,2) by (simp add: sync_inv_def reader_inv_def run_init_def reader_script_def)
    show "\<And>t a b. ?P a \<Longrightarrow> step self t a = Some b \<Longrightarrow> ?P b"
      by (blast intro: step_sync step_reader)
  qed
  then show ?thesis by simp
qed

lemma events_out_snoc [simp]:
  "events_out (tr @ map (Pair t) as) = events_out tr @ concat (map event_of as)"
  by (simp add: events_out_def comp_def)

lemma events_out_snoc1 [simp]:
  "events_out (tr @ [(t, a)]) = events_out tr @ event_of a"
  by (simp add: events_out_def)

lemma events_out_Nil [simp]: "events_out [] = []"
  by (simp add: events_out_def)





subsection \<open>On the reader-finished path the reader's events precede ChannelClose\<close>

lemma published_append [simp]: "published (xs @ ys) = published xs @ published ys"
  by (simp add: published_def)

lemma published_Nil [simp]: "published [] = []"
  by (simp add: published_def)

lemma published_Cons [simp]: "published (a # as) = publish_of a @ published as"
  by (simp add: published_def)

lemma map_snd_Pair [simp]: "map (snd \<circ> Pair t) as = as"
  by (simp add: comp_def)

lemma writer_next_published:
  "writer_next wc pc t = Some (pc', as) \<Longrightarrow> published as = []"
  by (induction wc pc t rule: writer_next.induct) auto

lemma reader_step_order:
  assumes "sync_inv s" and "orch_inv self s" and "order_inv self s"
    and "reader_step self t s = Some s'"
  shows "order_inv self s'"
proof -
  from assms(4) obtain pc' as where
    s': "s' = logs ReaderTask as (s\<lparr>rpc := pc',
               readerDone := (if pc' = R_Returned then ChanClosed else readerDone s)\<rparr>)"
    by (auto simp: reader_step_def split: option.splits)
  have nr: "rpc s \<noteq> R_Returned"
    using reader_step_fields(7)[OF assms(4)] .
  show ?thesis
  proof (cases "not_on_path_b self (opc s) (by_task Orchestrator (trace s))")
    case False
    then show ?thesis by (simp add: order_inv_def s' logs_def)
  next
    case True
    with nr assms(1,2) have "published (by_task Orchestrator (trace s)) = []"
      by (cases "opc s") (auto simp: sync_inv_def orch_inv_def script_defs)
    with True assms(3) show ?thesis
      by (simp add: order_inv_def s' logs_def)
  qed
qed

lemma writer_step_order: "order_inv self s \<Longrightarrow> writer_step t s = Some s' \<Longrightarrow> order_inv self s'"
  by (auto simp: writer_step_def logs_def order_inv_def split: option.splits
      dest!: writer_next_published)

lemma orch_step_order:
  "orch_inv self s \<Longrightarrow> order_inv self s \<Longrightarrow> orch_step self t s = Some s' \<Longrightarrow> order_inv self s'"
  apply (cases t; cases "opc s")
  apply (simp_all add: orch_unfold split: if_splits)
  apply (clarsimp simp: order_inv_def orch_inv_def script_defs)+
  done


lemma step_order:
  assumes "sync_inv s" and "orch_inv self s" and "order_inv self s" and "step self t s = Some s'"
  shows "order_inv self s'"
  using assms(4)
proof (cases rule: step_cases)
  case (reader rt)
  with assms(1-3) show ?thesis by (blast intro: reader_step_order)
next
  case (writer wt)
  with assms(3) show ?thesis by (blast intro: writer_step_order)
next
  case (orch ot)
  with assms(2,3) show ?thesis by (blast intro: orch_step_order)
next
  case hub
  with assms(3) show ?thesis by (simp add: order_inv_def)
qed

lemma reachable_order:
  assumes "writec c = ChanOpen" and "donec c = ChanOpen"
    and "exec self ts (run_init c) = Some s"
  shows "order_inv self s"
proof -
  let ?P = "\<lambda>s. sync_inv s \<and> orch_inv self s \<and> order_inv self s"
  have "?P s"
  proof (rule exec_invariant[where P = ?P, OF assms(3)])
    show "?P (run_init c)"
      using assms(1,2) by (simp add: sync_inv_def orch_inv_def order_inv_def run_init_def)
    show "\<And>t a b. ?P a \<Longrightarrow> step self t a = Some b \<Longrightarrow> ?P b"
      by (blast intro: step_sync step_orch step_order)
  qed
  then show ?thesis by simp
qed

lemma published_observer_part [simp]: "published (observer_part self obs f) = []"
  by (cases obs) (simp_all add: published_def comp_def)

lemma published_reader_segment [simp]:
  "published (reader_segment self obs r) = data_of self r"
  by (cases "(self, obs, r)" rule: reader_segment.cases) simp_all

lemma published_reader_script:
  "published (reader_script self obs rs) =
     EventChannelOpen self # concat (map (data_of self) rs)"
  by (induction rs rule: rev_induct) (simp_all add: reader_script_def)

lemma data_of_is_data: "list_all (is_data self) (concat (map (data_of self) rs))"
proof (induction rs)
  case Nil
  then show ?case by simp
next
  case (Cons r rs)
  then show ?case
    by (cases "(self, r)" rule: data_of.cases) simp_all
qed

lemma lifecycle_on_self_detected_closure:
  assumes "writec c = ChanOpen" and "donec c = ChanOpen"
    and "exec self ts (run_init c) = Some s"
    and "opc s = O_Returned"
    and "by_task Orchestrator (trace s) = start_script @ pathA self @ [CloseDone]"
  shows "lifecycle_pattern self (published (map snd (trace s)))"
proof -
  have y: "sync_inv s"
    using assms(1-3) by (rule reachable_sync)
  with assms(4) have r: "rpc s = R_Returned"
    by (simp add: sync_inv_def)
  have "reader_inv self (nodeStreamRequest (node c)) s"
    using assms(1-3) by (rule reachable_reader)
  with r have lg: "by_task ReaderTask (trace s) =
      reader_script self (nodeStreamRequest (node c)) (reads_of (by_task ReaderTask (trace s)))"
    by (simp add: reader_inv_def)
  have "order_inv self s"
    using assms(1-3) by (rule reachable_order)
  with assms(4,5) have "published (map snd (trace s)) =
      published (by_task ReaderTask (trace s)) @ published (by_task Orchestrator (trace s))"
    by (simp add: order_inv_def)
  also have "published (by_task Orchestrator (trace s)) = [EventChannelClose self]"
    by (simp add: assms(5) script_defs)
  also have "published (by_task ReaderTask (trace s)) =
      EventChannelOpen self # concat (map (data_of self) (reads_of (by_task ReaderTask (trace s))))"
    by (subst lg) (rule published_reader_script)
  finally show ?thesis
    by (simp add: data_of_is_data)
qed


subsection \<open>Every reachable state can reach the return of run\<close>

lemma reader_next_obs:
  "reader_next self obs pc t = Some (pc', as) \<Longrightarrow> pc' = R_Observer f \<Longrightarrow> obs \<noteq> None"
  by (induction self obs pc t rule: reader_next.induct) (auto split: option.splits)

lemma step_obs:
  assumes "sync_inv s" and "obs_inv s" and "step self t s = Some s'"
  shows "obs_inv s'"
  using assms(3)
proof (cases rule: step_cases)
  case (reader rt)
  then show ?thesis
    by (auto simp: obs_inv_def reader_step_def logs_def split: option.splits dest: reader_next_obs)
next
  case (writer wt)
  with assms(2) show ?thesis
    by (auto simp: obs_inv_def writer_step_def logs_def split: option.splits)
next
  case (orch ot)
  with assms(1,2) show ?thesis
    by (cases ot; cases "opc s") (auto simp: obs_inv_def orch_unfold split: if_splits)
next
  case hub
  with assms(2) show ?thesis by (simp add: obs_inv_def)
qed

lemma reader_progress:
  assumes "\<not> panicked s" and "obs_inv s" and "rpc s \<noteq> R_Returned" and "rpc s \<noteq> R_NotStarted"
  shows "\<exists>s'. step self (ReaderDoes (reader_tick_to_finish (rpc s))) s = Some s' \<and>
              rank self s' < rank self s"
proof (cases "rpc s")
  case (R_Observer f)
  with assms(2) obtain on where "nodeStreamRequest (node (ch s)) = Some on"
    by (auto simp: obs_inv_def)
  with R_Observer assms(1) show ?thesis
    by (simp add: step_def reader_step_def logs_def rank_def)
next
  case (R_InObserver f es)
  with assms(1) show ?thesis
    by (cases es) (simp_all add: step_def reader_step_def logs_def rank_def)
qed (use assms in \<open>simp_all add: step_def reader_step_def logs_def rank_def fatal_def\<close>)


lemma orch_progress:
  assumes "sync_inv s" and "opc s \<noteq> O_Returned" and "rpc s = R_Returned"
    and "terminate (ch s) = ChanClosed" and "wpc s = W_Range \<or> wpc s = W_Returned"
  shows "\<exists>s'. step self (next_tick s) s = Some s' \<and> rank self s' < rank self s"
proof -
  from assms(1,3) have np: "\<not> panicked s" and rd: "readerDone s = ChanClosed"
    and wc: "writec (ch s) = ChanClosed \<longleftrightarrow> writec_closed_at (opc s)"
    and wd: "writerDone s = ChanClosed \<longleftrightarrow> wpc s = W_Returned"
    and dn: "donec (ch s) = ChanClosed \<longleftrightarrow> opc s = O_Returned"
    and st: "opc s \<noteq> O_GoReader" "wpc s = W_NotStarted \<longleftrightarrow> opc s = O_GoReader \<or> opc s = O_GoWriter"
    by (simp_all add: sync_inv_def)
  note defs = next_tick_def step_def writer_step_def orch_unfold rank_def
  from assms(5) show ?thesis
  proof
    assume w: "wpc s = W_Range"
    with st have "opc s \<noteq> O_GoWriter" by auto
    with w np rd wc wd dn st assms(2-4) show ?thesis
      by (cases "opc s") (simp_all add: defs)
  next
    assume w: "wpc s = W_Returned"
    with st have "opc s \<noteq> O_GoWriter" by auto
    with w np rd wc wd dn st assms(2-4) show ?thesis
      by (cases "opc s") (simp_all add: defs)
  qed
qed

lemma next_tick_progress:
  assumes "sync_inv s" and "obs_inv s" and "opc s \<noteq> O_Returned"
  shows "\<exists>s'. step self (next_tick s) s = Some s' \<and> rank self s' < rank self s"
proof -
  from assms(1) have np: "\<not> panicked s"
    and rs: "rpc s = R_NotStarted \<longleftrightarrow> opc s = O_GoReader"
    and ws: "wpc s = W_NotStarted \<longleftrightarrow> opc s = O_GoReader \<or> opc s = O_GoWriter"
    by (simp_all add: sync_inv_def)
  show ?thesis
  proof (cases "opc s = O_GoReader \<or> opc s = O_GoWriter")
    case True
    then show ?thesis
    proof
      assume "opc s = O_GoReader"
      with np rs ws show ?thesis
        by (simp add: next_tick_def step_def orch_unfold rank_def)
    next
      assume "opc s = O_GoWriter"
      with np rs ws show ?thesis
        by (simp add: next_tick_def step_def orch_unfold rank_def)
    qed
  next
    case started: False
    show ?thesis
    proof (cases "rpc s = R_Returned")
      case False
      from started rs have "rpc s \<noteq> R_NotStarted"
        by simp
      from reader_progress[OF np assms(2) False this] started False show ?thesis
        by (simp add: next_tick_def)
    next
      case returned: True
      show ?thesis
      proof (cases "terminate (ch s)")
        case ChanOpen
        with started returned np show ?thesis
          by (simp add: next_tick_def step_def rank_def)
      next
        case ChanClosed
        show ?thesis
        proof (cases "wpc s")
          case W_NotStarted
          with ws started show ?thesis by simp
        next
          case W_Range
          with assms(1,3) returned ChanClosed show ?thesis
            by (intro orch_progress) simp_all
        next
          case (W_Switch it)
          with started returned ChanClosed np show ?thesis
            by (cases it) (simp_all add: next_tick_def step_def writer_step_def logs_def rank_def)
        next
          case W_Returned
          with assms(1,3) returned ChanClosed show ?thesis
            by (intro orch_progress) simp_all
        qed
      qed
    qed
  qed
qed

lemma run_can_return_from:
  assumes "sync_inv s" and "obs_inv s"
  shows "\<exists>ts s'. exec self ts s = Some s' \<and> opc s' = O_Returned"
  using assms
proof (induction "rank self s" arbitrary: s rule: less_induct)
  case less
  show ?case
  proof (cases "opc s = O_Returned")
    case True
    then have "exec self [] s = Some s \<and> opc s = O_Returned"
      by simp
    then show ?thesis by blast
  next
    case False
    from next_tick_progress[OF less.prems False] obtain s1 where
      st: "step self (next_tick s) s = Some s1" and lt: "rank self s1 < rank self s"
      by blast
    have "sync_inv s1" "obs_inv s1"
      using less.prems st by (blast intro: step_sync step_obs)+
    from less.hyps[OF lt this] obtain ts s' where "exec self ts s1 = Some s'" "opc s' = O_Returned"
      by blast
    with st have "exec self (next_tick s # ts) s = Some s' \<and> opc s' = O_Returned"
      by simp
    then show ?thesis by blast
  qed
qed

lemma run_can_return:
  assumes "writec c = ChanOpen" and "donec c = ChanOpen"
    and "exec self ts (run_init c) = Some s"
  shows "\<exists>ts' s'. exec self ts' s = Some s' \<and> opc s' = O_Returned"
proof -
  let ?P = "\<lambda>s. sync_inv s \<and> obs_inv s"
  have "?P s"
  proof (rule exec_invariant[where P = ?P, OF assms(3)])
    show "?P (run_init c)"
      using assms(1,2) by (simp add: sync_inv_def obs_inv_def run_init_def)
    show "\<And>t a b. ?P a \<Longrightarrow> step self t a = Some b \<Longrightarrow> ?P b"
      by (blast intro: step_sync step_obs)
  qed
  then show ?thesis
    by (blast intro: run_can_return_from)
qed

subsection \<open>Concrete runs\<close>

lemmas run_simps = run_init_def chan0_def frame0_def step_def reader_step_def writer_step_def
  goto_def panic_def logs_def close_writec_def close_done_def

lemma chan0_fresh: "writec chan0 = ChanOpen" "donec chan0 = ChanOpen"
  by (simp_all add: chan0_def)

lemma exec_schedA:
  "\<exists>s. exec 7 schedA (run_init chan0) = Some s \<and> opc s = O_Returned \<and>
     by_task Orchestrator (trace s) = start_script @ pathA 7 @ [CloseDone]"
  by (simp add: schedA_def run_simps script_defs by_task_def)

lemma exec_schedB:
  "\<exists>s. exec 7 schedB (run_init chan0) = Some s \<and> opc s = O_Returned \<and>
     by_task Orchestrator (trace s) = start_script @ pathB 7 @ [CloseDone]"
  by (simp add: schedB_def run_simps script_defs by_task_def)

lemma exec_schedBoth:
  "\<exists>s. exec 7 schedBoth (run_init chan0) = Some s \<and> opc s = O_Returned"
  by (simp add: schedBoth_def run_simps)

section \<open>The order of a channel's events\<close>

text \<open>
  Claim C1 states that the events of a channel always read Open, then Frames and
  ParseErrors, then Close. On the case of line 105 this holds
  (\<open>lifecycle_on_self_detected_closure\<close>). The sequence below is a complete run of
  \<^verbatim>\<open>run\<close>, up to the close of \<^verbatim>\<open>done\<close>, in which the consumer of \<^verbatim>\<open>eventsOut\<close> receives
  ChannelClose first, then ChannelOpen, then a Frame: the case of line 116 publishes
  ChannelClose while the reader goroutine is still running, and joins it only at line 123.
\<close>

theorem close_published_before_open_and_frame:
  "map_option (outcome 7) (exec 7 schedCloseFirst (run_init chan0)) =
   Some (O_Returned, R_Returned, W_Returned, ChanClosed,
         [EventChannelClose 7, EventChannelOpen 7, EventFrame frame0 7], False)"
  by (simp add: schedCloseFirst_def run_simps events_out_def outcome_def)

section \<open>The shutdown paths\<close>

text \<open>
  Claim C2. In every interleaving the orchestrator's log is a prefix of exactly one of the
  two shutdown sequences, and equals one of them once \<^verbatim>\<open>run\<close> has returned. The raw
  stream's \<^verbatim>\<open>Close\<close> occurs in the whole log at most once, exactly once after a completed
  run, and only at the point of a shutdown sequence that follows the select, the
  publication of ChannelClose, the closing of \<^verbatim>\<open>writec\<close> and the join of the writer.
\<close>

theorem shutdown_once:
  assumes "exec self ts (run_init c) = Some s"
  shows "count_act RwcClose (trace s) = (if stream_closed_at (opc s) then 1 else 0) \<and>
         (stream_closed_at (opc s) \<longrightarrow>
            prefix (start_script @ pathA self) (by_task Orchestrator (trace s)) \<or>
            prefix (start_script @ take 5 (pathB self)) (by_task Orchestrator (trace s))) \<and>
         (prefix (by_task Orchestrator (trace s)) (start_script @ pathA self @ [CloseDone]) \<or>
          prefix (by_task Orchestrator (trace s)) (start_script @ pathB self @ [CloseDone])) \<and>
         \<not> (prefix (start_script @ [RecvReaderDone]) (by_task Orchestrator (trace s)) \<and>
            prefix (start_script @ [RecvTerminate]) (by_task Orchestrator (trace s))) \<and>
         (opc s = O_Returned \<longrightarrow>
            count_act RwcClose (trace s) = 1 \<and>
            (by_task Orchestrator (trace s) = start_script @ pathA self @ [CloseDone] \<or>
             by_task Orchestrator (trace s) = start_script @ pathB self @ [CloseDone]))"
proof -
  have c: "count_act RwcClose (trace s) = (if stream_closed_at (opc s) then 1 else 0)"
    using reachable_count[OF assms] by (simp add: count_inv_def)
  have o: "by_task Orchestrator (trace s) \<in> set (orch_logs self (opc s))"
    using reachable_orch[OF assms] by (simp add: orch_inv_def)
  from o have p: "stream_closed_at (opc s) \<longrightarrow>
            prefix (start_script @ pathA self) (by_task Orchestrator (trace s)) \<or>
            prefix (start_script @ take 5 (pathB self)) (by_task Orchestrator (trace s))"
    by (cases "opc s") (auto simp: script_defs)
  from o have q: "prefix (by_task Orchestrator (trace s)) (start_script @ pathA self @ [CloseDone]) \<or>
          prefix (by_task Orchestrator (trace s)) (start_script @ pathB self @ [CloseDone])"
    by (cases "opc s") (auto simp: script_defs)
  from o have r: "\<not> (prefix (start_script @ [RecvReaderDone]) (by_task Orchestrator (trace s)) \<and>
            prefix (start_script @ [RecvTerminate]) (by_task Orchestrator (trace s)))"
    by (cases "opc s") (auto simp: script_defs)
  from o c have f: "opc s = O_Returned \<longrightarrow>
            count_act RwcClose (trace s) = 1 \<and>
            (by_task Orchestrator (trace s) = start_script @ pathA self @ [CloseDone] \<or>
             by_task Orchestrator (trace s) = start_script @ pathB self @ [CloseDone])"
    by auto
  from c p q r f show ?thesis by blast
qed

theorem shutdown_once_witness:
  "\<exists>s. exec 7 schedBoth (run_init chan0) = Some s \<and> opc s = O_Returned \<and>
       count_act RwcClose (trace s) = 1 \<and>
       (by_task Orchestrator (trace s) = start_script @ pathA 7 @ [CloseDone] \<or>
        by_task Orchestrator (trace s) = start_script @ pathB 7 @ [CloseDone])"
proof -
  obtain s where e: "exec 7 schedBoth (run_init chan0) = Some s" and r: "opc s = O_Returned"
    using exec_schedBoth by blast
  from shutdown_once[OF e] r have "count_act RwcClose (trace s) = 1 \<and>
       (by_task Orchestrator (trace s) = start_script @ pathA 7 @ [CloseDone] \<or>
        by_task Orchestrator (trace s) = start_script @ pathB 7 @ [CloseDone])"
    by blast
  with e r show ?thesis by blast
qed

text \<open>
  Claim C3. When the select took the reader-finished case (line 105), the orchestrator's
  log is a prefix of: receive on \<^verbatim>\<open>readerDone\<close>, publish ChannelClose, send the channel on
  \<^verbatim>\<open>channelClose\<close>, receive on \<^verbatim>\<open>terminate\<close>, close \<^verbatim>\<open>writec\<close>, receive on
  \<^verbatim>\<open>writerDone\<close>, close the raw stream (then the deferred close of \<^verbatim>\<open>done\<close>), and it is the
  whole sequence once \<^verbatim>\<open>run\<close> has returned. The reader has returned; the orchestrator is
  blocked while \<^verbatim>\<open>terminate\<close> is not signalled, and while the writer has not returned.
\<close>

theorem self_detected_closure_order:
  assumes "writec c = ChanOpen" and "donec c = ChanOpen"
    and "exec self ts (run_init c) = Some s"
    and "prefix (start_script @ [RecvReaderDone]) (by_task Orchestrator (trace s))"
  shows "prefix (by_task Orchestrator (trace s)) (start_script @ pathA self @ [CloseDone]) \<and>
         (opc s = O_Returned \<longrightarrow>
            by_task Orchestrator (trace s) = start_script @ pathA self @ [CloseDone]) \<and>
         rpc s = R_Returned \<and>
         (RecvTerminate \<in> set (by_task Orchestrator (trace s)) \<longrightarrow> terminate (ch s) = ChanClosed) \<and>
         (CloseWritec \<in> set (by_task Orchestrator (trace s)) \<longleftrightarrow> writec (ch s) = ChanClosed) \<and>
         (RecvWriterDone \<in> set (by_task Orchestrator (trace s)) \<longrightarrow> wpc s = W_Returned) \<and>
         (opc s = OA_Terminate \<and> terminate (ch s) = ChanOpen \<longrightarrow> (\<forall>ot. orch_step self ot s = None)) \<and>
         (opc s = OA_WriterDone \<and> writerDone s = ChanOpen \<longrightarrow> (\<forall>ot. orch_step self ot s = None))"
proof -
  have o: "by_task Orchestrator (trace s) \<in> set (orch_logs self (opc s))"
    using reachable_orch[OF assms(3)] by (simp add: orch_inv_def)
  have y: "sync_inv s"
    using assms(1-3) by (rule reachable_sync)
  have b: "\<forall>ot. opc s = OA_Terminate \<and> terminate (ch s) = ChanOpen \<longrightarrow> orch_step self ot s = None"
    by (rule allI, case_tac ot) simp_all
  have w: "\<forall>ot. opc s = OA_WriterDone \<and> writerDone s = ChanOpen \<longrightarrow> orch_step self ot s = None"
    by (rule allI, case_tac ot) simp_all
  from o y assms(4) have
    "prefix (by_task Orchestrator (trace s)) (start_script @ pathA self @ [CloseDone]) \<and>
         (opc s = O_Returned \<longrightarrow>
            by_task Orchestrator (trace s) = start_script @ pathA self @ [CloseDone]) \<and>
         rpc s = R_Returned \<and>
         (RecvTerminate \<in> set (by_task Orchestrator (trace s)) \<longrightarrow> terminate (ch s) = ChanClosed) \<and>
         (CloseWritec \<in> set (by_task Orchestrator (trace s)) \<longleftrightarrow> writec (ch s) = ChanClosed) \<and>
         (RecvWriterDone \<in> set (by_task Orchestrator (trace s)) \<longrightarrow> wpc s = W_Returned)"
    by (cases "opc s") (auto simp: script_defs sync_inv_def)
  with b w show ?thesis by blast
qed

theorem self_detected_closure_order_witness:
  "\<exists>s. exec 7 schedA (run_init chan0) = Some s \<and> opc s = O_Returned \<and>
       by_task Orchestrator (trace s) =
         [Go ReaderTask, Go WriterTask, RecvReaderDone, Publish (EventChannelClose 7),
          SendChannelClose, RecvTerminate, CloseWritec, RecvWriterDone, RwcClose, CloseDone] \<and>
       rpc s = R_Returned \<and> wpc s = W_Returned \<and> terminate (ch s) = ChanClosed"
proof -
  obtain s where e: "exec 7 schedA (run_init chan0) = Some s" and r: "opc s = O_Returned"
    and l: "by_task Orchestrator (trace s) = start_script @ pathA 7 @ [CloseDone]"
    using exec_schedA by blast
  have t: "prefix (start_script @ [RecvReaderDone]) (by_task Orchestrator (trace s))"
    by (simp add: l script_defs)
  from self_detected_closure_order[OF chan0_fresh e t] r l
  have "rpc s = R_Returned \<and> wpc s = W_Returned \<and> terminate (ch s) = ChanClosed"
    by (simp add: script_defs)
  with e r l show ?thesis by (auto simp: script_defs)
qed

text \<open>
  Claim C4. When the select took the termination case (line 116), the orchestrator's log
  is a prefix of: receive on \<^verbatim>\<open>terminate\<close>, publish ChannelClose, close \<^verbatim>\<open>writec\<close>, receive
  on \<^verbatim>\<open>writerDone\<close>, close the raw stream, receive on \<^verbatim>\<open>readerDone\<close> (then the deferred
  close of \<^verbatim>\<open>done\<close>), and it is the whole sequence once \<^verbatim>\<open>run\<close> has returned. The stream is
  closed without waiting for the reader; the orchestrator then blocks until the reader has
  returned. That a pending read fails once the stream is closed is a property of the
  stream, which is outside the sources; the schedule supplies that read result.
\<close>

theorem externally_requested_closure_order:
  assumes "writec c = ChanOpen" and "donec c = ChanOpen"
    and "exec self ts (run_init c) = Some s"
    and "prefix (start_script @ [RecvTerminate]) (by_task Orchestrator (trace s))"
  shows "prefix (by_task Orchestrator (trace s)) (start_script @ pathB self @ [CloseDone]) \<and>
         (opc s = O_Returned \<longrightarrow>
            by_task Orchestrator (trace s) = start_script @ pathB self @ [CloseDone]) \<and>
         terminate (ch s) = ChanClosed \<and>
         (CloseWritec \<in> set (by_task Orchestrator (trace s)) \<longleftrightarrow> writec (ch s) = ChanClosed) \<and>
         (RecvWriterDone \<in> set (by_task Orchestrator (trace s)) \<longrightarrow> wpc s = W_Returned) \<and>
         (RecvReaderDone \<in> set (by_task Orchestrator (trace s)) \<longrightarrow> rpc s = R_Returned) \<and>
         (opc s = OB_WriterDone \<and> writerDone s = ChanOpen \<longrightarrow> (\<forall>ot. orch_step self ot s = None)) \<and>
         (opc s = OB_ReaderDone \<and> readerDone s = ChanOpen \<longrightarrow> (\<forall>ot. orch_step self ot s = None))"
proof -
  have o: "by_task Orchestrator (trace s) \<in> set (orch_logs self (opc s))"
    using reachable_orch[OF assms(3)] by (simp add: orch_inv_def)
  have y: "sync_inv s"
    using assms(1-3) by (rule reachable_sync)
  have b: "\<forall>ot. opc s = OB_WriterDone \<and> writerDone s = ChanOpen \<longrightarrow> orch_step self ot s = None"
    by (rule allI, case_tac ot) simp_all
  have w: "\<forall>ot. opc s = OB_ReaderDone \<and> readerDone s = ChanOpen \<longrightarrow> orch_step self ot s = None"
    by (rule allI, case_tac ot) simp_all
  from o y assms(4) have
    "prefix (by_task Orchestrator (trace s)) (start_script @ pathB self @ [CloseDone]) \<and>
         (opc s = O_Returned \<longrightarrow>
            by_task Orchestrator (trace s) = start_script @ pathB self @ [CloseDone]) \<and>
         terminate (ch s) = ChanClosed \<and>
         (CloseWritec \<in> set (by_task Orchestrator (trace s)) \<longleftrightarrow> writec (ch s) = ChanClosed) \<and>
         (RecvWriterDone \<in> set (by_task Orchestrator (trace s)) \<longrightarrow> wpc s = W_Returned) \<and>
         (RecvReaderDone \<in> set (by_task Orchestrator (trace s)) \<longrightarrow> rpc s = R_Returned)"
    by (cases "opc s") (auto simp: script_defs sync_inv_def)
  with b w show ?thesis by blast
qed

theorem externally_requested_closure_order_witness:
  "\<exists>s. exec 7 schedB (run_init chan0) = Some s \<and> opc s = O_Returned \<and>
       by_task Orchestrator (trace s) =
         [Go ReaderTask, Go WriterTask, RecvTerminate, Publish (EventChannelClose 7),
          CloseWritec, RecvWriterDone, RwcClose, RecvReaderDone, CloseDone] \<and>
       rpc s = R_Returned \<and> wpc s = W_Returned \<and> terminate (ch s) = ChanClosed"
proof -
  obtain s where e: "exec 7 schedB (run_init chan0) = Some s" and r: "opc s = O_Returned"
    and l: "by_task Orchestrator (trace s) = start_script @ pathB 7 @ [CloseDone]"
    using exec_schedB by blast
  have t: "prefix (start_script @ [RecvTerminate]) (by_task Orchestrator (trace s))"
    by (simp add: l script_defs)
  from externally_requested_closure_order[OF chan0_fresh e t] r l
  have "rpc s = R_Returned \<and> wpc s = W_Returned \<and> terminate (ch s) = ChanClosed"
    by (simp add: script_defs)
  with e r l show ?thesis by (auto simp: script_defs)
qed

section \<open>The reader\<close>




lemma schedB_cut: "schedB = schedBpre @ schedBpost"
  by (simp add: schedB_def schedBpre_def schedBpost_def)


text \<open>
  Claim C6. When \<^verbatim>\<open>parser.Read()\<close> returns a \<^verbatim>\<open>*ParserError\<close>, the reader does not return
  and publishes nothing in that step; it is then at the send of line 73, where the only
  step it can take is to publish ParseError with that error and this channel, after which
  it is back at the read of line 69 with \<^verbatim>\<open>readerDone\<close> still open, and any result of the
  next read is accepted. In every interleaving, a reader that has returned has done so on
  a read whose error was not a \<^verbatim>\<open>*ParserError\<close>.
\<close>

theorem parse_error_published_loop_continues:
  assumes "writec c = ChanOpen" and "donec c = ChanOpen"
    and "exec self ts (run_init c) = Some s"
  shows "(rpc s = R_Read \<longrightarrow>
            (\<exists>s1. step self (ReaderDoes (RRead (Inl (ParserError m)))) s = Some s1 \<and>
                  rpc s1 = R_ParseError (ParserError m) \<and> readerDone s1 = ChanOpen \<and>
                  events_out (trace s1) = events_out (trace s))) \<and>
         (\<forall>e. rpc s = R_ParseError e \<longrightarrow>
            (\<exists>s2. step self (ReaderDoes RSend) s = Some s2 \<and>
                  rpc s2 = R_Read \<and> readerDone s2 = ChanOpen \<and>
                  trace s2 = trace s @ [(ReaderTask, Publish (EventParseError e self))] \<and>
                  (\<forall>r. step self (ReaderDoes (RRead r)) s2 \<noteq> None)) \<and>
            (\<forall>rt s'. reader_step self rt s = Some s' \<longrightarrow> rt = RSend)) \<and>
         (rpc s = R_Returned \<longrightarrow>
            reads_of (by_task ReaderTask (trace s)) \<noteq> [] \<and>
            is_fatal (last (reads_of (by_task ReaderTask (trace s)))))"
proof -
  have y: "sync_inv s"
    using assms by (rule reachable_sync)
  then have np: "\<not> panicked s" and rd: "rpc s \<noteq> R_Returned \<longrightarrow> readerDone s = ChanOpen"
    by (auto simp: sync_inv_def intro: chan.exhaust)
  have a: "rpc s = R_Read \<longrightarrow>
            (\<exists>s1. step self (ReaderDoes (RRead (Inl (ParserError m)))) s = Some s1 \<and>
                  rpc s1 = R_ParseError (ParserError m) \<and> readerDone s1 = ChanOpen \<and>
                  events_out (trace s1) = events_out (trace s))"
    using np rd by (simp add: step_def reader_step_def logs_def)
  have b: "\<forall>e. rpc s = R_ParseError e \<longrightarrow>
            (\<exists>s2. step self (ReaderDoes RSend) s = Some s2 \<and>
                  rpc s2 = R_Read \<and> readerDone s2 = ChanOpen \<and>
                  trace s2 = trace s @ [(ReaderTask, Publish (EventParseError e self))] \<and>
                  (\<forall>r. step self (ReaderDoes (RRead r)) s2 \<noteq> None))"
  proof (intro allI impI)
    fix e
    assume pc: "rpc s = R_ParseError e"
    define s2 where "s2 = logs ReaderTask [Publish (EventParseError e self)] (s\<lparr>rpc := R_Read\<rparr>)"
    have st: "step self (ReaderDoes RSend) s = Some s2"
      using np pc by (simp add: step_def reader_step_def s2_def)
    have f: "rpc s2 = R_Read" "readerDone s2 = ChanOpen" "\<not> panicked s2"
      "trace s2 = trace s @ [(ReaderTask, Publish (EventParseError e self))]"
      using np rd pc by (simp_all add: s2_def logs_def)
    have "\<forall>r. step self (ReaderDoes (RRead r)) s2 \<noteq> None"
    proof
      fix r
      show "step self (ReaderDoes (RRead r)) s2 \<noteq> None"
      proof (cases r)
        case (Inl err)
        then show ?thesis using f by (cases err) (simp_all add: step_def reader_step_def)
      next
        case (Inr fr)
        then show ?thesis using f by (simp add: step_def reader_step_def)
      qed
    qed
    with st f show "\<exists>s2. step self (ReaderDoes RSend) s = Some s2 \<and>
                  rpc s2 = R_Read \<and> readerDone s2 = ChanOpen \<and>
                  trace s2 = trace s @ [(ReaderTask, Publish (EventParseError e self))] \<and>
                  (\<forall>r. step self (ReaderDoes (RRead r)) s2 \<noteq> None)"
      by blast
  qed
  have c: "\<forall>e. rpc s = R_ParseError e \<longrightarrow> (\<forall>rt s'. reader_step self rt s = Some s' \<longrightarrow> rt = RSend)"
  proof (intro allI impI)
    fix e rt s'
    assume "rpc s = R_ParseError e" and "reader_step self rt s = Some s'"
    then show "rt = RSend"
      by (cases rt) (simp_all add: reader_step_def)
  qed
  have d: "rpc s = R_Returned \<longrightarrow>
            reads_of (by_task ReaderTask (trace s)) \<noteq> [] \<and>
            is_fatal (last (reads_of (by_task ReaderTask (trace s))))"
    using reachable_reader[OF assms] by (simp add: reader_inv_def)
  from a b c d show ?thesis by blast
qed

lemma exec_schedParseError:
  "\<exists>s. exec 7 schedParseError (run_init chan0) = Some s \<and>
     rpc s = R_ParseError (ParserError ''crc'')"
  by (simp add: schedParseError_def run_simps)

theorem parse_error_published_loop_continues_witness:
  "\<exists>s s2. exec 7 schedParseError (run_init chan0) = Some s \<and>
       rpc s = R_ParseError (ParserError ''crc'') \<and>
       step 7 (ReaderDoes RSend) s = Some s2 \<and> rpc s2 = R_Read \<and> readerDone s2 = ChanOpen \<and>
       trace s2 = trace s @ [(ReaderTask, Publish (EventParseError (ParserError ''crc'') 7))]"
proof -
  obtain s where e: "exec 7 schedParseError (run_init chan0) = Some s"
    and r: "rpc s = R_ParseError (ParserError ''crc'')"
    using exec_schedParseError by blast
  from parse_error_published_loop_continues[OF chan0_fresh e] r e
  show ?thesis by blast
qed








section \<open>Construction\<close>

text \<open>
  Claim C8. \<^verbatim>\<open>newChannel\<close> draws one random byte and calls \<^verbatim>\<open>NewParser\<close> with the stream as
  reader and writer, the hub's configuration, and that byte as signature link identifier.
  It returns the constructor's error, and no channel, exactly when the constructor fails;
  otherwise the channel holds the given endpoint, label, stream and hub, the codec just
  built, and three open Go channels. Provided \<^verbatim>\<open>NewParser\<close> and \<^verbatim>\<open>randomByte\<close> themselves do
  no stream I/O and start no goroutine, neither does \<^verbatim>\<open>newChannel\<close>, whatever the outcome.
\<close>

theorem newChannel_outcome:
  assumes "\<forall>cf w. stream_io (snd (NewParser cf w)) = stream_io w \<and>
                  goroutines (snd (NewParser cf w)) = goroutines w"
    and "\<forall>w. stream_io (snd (randomByte w)) = stream_io w \<and>
              goroutines (snd (randomByte w)) = goroutines w"
  shows "let cf = \<lparr>Reader = rw, Writer = rw,
                   PDialect = Dialect (conf n), PInKey = InKey (conf n),
                   POutSystemId = OutSystemId (conf n), POutVersion = OutVersion (conf n),
                   POutComponentId = OutComponentId (conf n),
                   OutSignatureLinkId = fst (randomByte w), POutKey = OutKey (conf n)\<rparr>;
             built = fst (NewParser cf (snd (randomByte w)));
             out = newChannel NewParser randomByte n e lbl rw w
         in (case built of
               Inl err \<Rightarrow> fst out = Inl err
             | Inr p \<Rightarrow> fst out = Inr \<lparr>Endpoint = e, label = lbl, rwc = rw, node = n, parser = p,
                                      writec = ChanOpen, terminate = ChanOpen, donec = ChanOpen\<rparr>) \<and>
            isl (fst out) = isl built \<and>
            stream_io (snd out) = stream_io w \<and> goroutines (snd out) = goroutines w"
proof -
  obtain b w1 where rb: "randomByte w = (b, w1)"
    by (cases "randomByte w")
  let ?cf = "\<lparr>Reader = rw, Writer = rw,
                   PDialect = Dialect (conf n), PInKey = InKey (conf n),
                   POutSystemId = OutSystemId (conf n), POutVersion = OutVersion (conf n),
                   POutComponentId = OutComponentId (conf n),
                   OutSignatureLinkId = b, POutKey = OutKey (conf n)\<rparr>"
  obtain res w2 where np: "NewParser ?cf w1 = (res, w2)"
    by (cases "NewParser ?cf w1")
  from assms(2) have "stream_io (snd (randomByte w)) = stream_io w"
    and "goroutines (snd (randomByte w)) = goroutines w"
    by simp_all
  with rb have w1: "stream_io w1 = stream_io w" "goroutines w1 = goroutines w"
    by simp_all
  from assms(1) have "stream_io (snd (NewParser ?cf w1)) = stream_io w1"
    and "goroutines (snd (NewParser ?cf w1)) = goroutines w1"
    by simp_all
  with np w1 have w2: "stream_io w2 = stream_io w" "goroutines w2 = goroutines w"
    by simp_all
  show ?thesis
    using rb np w2 by (cases res) (simp_all add: newChannel_def Let_def)
qed

theorem newChannel_outcome_witness:
  "fst (newChannel NewParser0 randomByte0 (node chan0) 0 ''tcp'' 0 world0) =
     Inl (OtherError ''dialect'') \<and>
   fst (newChannel NewParser0 randomByte0 ((node chan0)\<lparr>conf := (conf (node chan0))\<lparr>Dialect := Some 1\<rparr>\<rparr>)
          0 ''tcp'' 0 world0) =
     Inr \<lparr>Endpoint = 0, label = ''tcp'', rwc = 0,
          node = (node chan0)\<lparr>conf := (conf (node chan0))\<lparr>Dialect := Some 1\<rparr>\<rparr>, parser = 3,
          writec = ChanOpen, terminate = ChanOpen, donec = ChanOpen\<rparr> \<and>
   stream_io (snd (newChannel NewParser0 randomByte0 (node chan0) 0 ''tcp'' 0 world0)) = [] \<and>
   goroutines (snd (newChannel NewParser0 randomByte0 (node chan0) 0 ''tcp'' 0 world0)) = 1"
proof -
  have np: "\<forall>cf w. stream_io (snd (NewParser0 cf w)) = stream_io w \<and>
                  goroutines (snd (NewParser0 cf w)) = goroutines w"
    by (simp add: NewParser0_def)
  have rb: "\<forall>w. stream_io (snd (randomByte0 w)) = stream_io w \<and>
              goroutines (snd (randomByte0 w)) = goroutines w"
    by (simp add: randomByte0_def)
  let ?n1 = "(node chan0)\<lparr>conf := (conf (node chan0))\<lparr>Dialect := Some 1\<rparr>\<rparr>"
  have b0: "fst (NewParser0 cf w) = Inl (OtherError ''dialect'')" if "PDialect cf = None" for cf w
    using that by (simp add: NewParser0_def)
  have b1: "fst (NewParser0 cf w) = Inr 3" if "PDialect cf = Some 1" for cf w
    using that by (simp add: NewParser0_def)
  have d0: "Dialect (conf (node chan0)) = None"
    by (simp add: chan0_def)
  have d1: "Dialect (conf ?n1) = Some 1"
    by simp
  from newChannel_outcome[OF np rb, of 0 "node chan0" world0 0 "''tcp''"]
  have r0: "fst (newChannel NewParser0 randomByte0 (node chan0) 0 ''tcp'' 0 world0) =
              Inl (OtherError ''dialect'')"
    and r2: "stream_io (snd (newChannel NewParser0 randomByte0 (node chan0) 0 ''tcp'' 0 world0)) = []"
    and r3: "goroutines (snd (newChannel NewParser0 randomByte0 (node chan0) 0 ''tcp'' 0 world0)) = 1"
    by (simp_all add: Let_def b0 d0 world0_def)
  from newChannel_outcome[OF np rb, of 0 ?n1 world0 0 "''tcp''"]
  have r1: "fst (newChannel NewParser0 randomByte0 ?n1 0 ''tcp'' 0 world0) =
     Inr \<lparr>Endpoint = 0, label = ''tcp'', rwc = 0, node = ?n1, parser = 3,
          writec = ChanOpen, terminate = ChanOpen, donec = ChanOpen\<rparr>"
    by (simp add: Let_def b1 d1)
  from r0 r1 r2 r3 show ?thesis by simp
qed

section \<open>The writer\<close>

text \<open>
  Claim C9. When the writer is at the type switch with a Message or a Frame and the codec's
  write fails, the step is taken all the same: the writer is back at the head of its loop,
  \<^verbatim>\<open>writerDone\<close> is still open, nothing has panicked, and nothing has reached \<^verbatim>\<open>eventsOut\<close>.
  Apart from the return value noted in the log, the state is the one a successful write
  leaves, so the error reaches nobody; the client's send had completed when the item was
  received. While \<^verbatim>\<open>writec\<close> is open the writer accepts the next item.
\<close>

theorem write_failure_dropped:
  assumes "writec c = ChanOpen" and "donec c = ChanOpen"
    and "exec self ts (run_init c) = Some s"
    and "wpc s = W_Switch it" and "it = ItemMessage msg \<or> it = ItemFrame fr"
  shows "\<exists>s'. step self (WriterDoes (WSwitch (Some err))) s = Some s' \<and>
           s' = s\<lparr>wpc := W_Range,
                  trace := trace s @ map (Pair WriterTask) (write_call it (Some err))\<rparr> \<and>
           length (write_call it (Some err)) = 1 \<and>
           events_out (trace s') = events_out (trace s) \<and>
           \<not> panicked s' \<and> writerDone s' = ChanOpen \<and>
           (\<exists>s0. step self (WriterDoes (WSwitch None)) s = Some s0 \<and>
                 s0\<lparr>trace := []\<rparr> = s'\<lparr>trace := []\<rparr>) \<and>
           (writec (ch s') = ChanOpen \<longrightarrow>
              (\<forall>it'. \<exists>s''. step self (WriterDoes (WRecv it')) s' = Some s'' \<and>
                           wpc s'' = W_Switch it'))"
proof -
  have y: "sync_inv s"
    using assms(1-3) by (rule reachable_sync)
  with assms(4) have np: "\<not> panicked s" and wd: "writerDone s = ChanOpen"
    by (auto simp: sync_inv_def intro: chan.exhaust)
  from assms(5) show ?thesis
  proof
    assume "it = ItemMessage msg"
    with assms(4) np wd show ?thesis
      by (simp add: step_def writer_step_def logs_def events_out_def)
  next
    assume "it = ItemFrame fr"
    with assms(4) np wd show ?thesis
      by (simp add: step_def writer_step_def logs_def events_out_def)
  qed
qed

lemma exec_schedWrite:
  "\<exists>s. exec 7 schedWrite (run_init chan0) = Some s \<and> wpc s = W_Switch (ItemMessage (Message 0)) \<and>
     events_out (trace s) = [EventChannelOpen 7]"
  by (simp add: schedWrite_def run_simps events_out_def)

theorem write_failure_dropped_witness:
  "\<exists>s s'. exec 7 schedWrite (run_init chan0) = Some s \<and>
       step 7 (WriterDoes (WSwitch (Some (OtherError ''broken pipe'')))) s = Some s' \<and>
       wpc s' = W_Range \<and> writerDone s' = ChanOpen \<and>
       events_out (trace s') = [EventChannelOpen 7]"
proof -
  obtain s where e: "exec 7 schedWrite (run_init chan0) = Some s"
    and w: "wpc s = W_Switch (ItemMessage (Message 0))"
    and v: "events_out (trace s) = [EventChannelOpen 7]"
    using exec_schedWrite by blast
  have i: "ItemMessage (Message 0) = ItemMessage (Message 0) \<or> ItemMessage (Message 0) = ItemFrame frame0"
    by simp
  from write_failure_dropped[OF chan0_fresh e w i, of "OtherError ''broken pipe''"]
  obtain s' where "step 7 (WriterDoes (WSwitch (Some (OtherError ''broken pipe'')))) s = Some s'"
    and "s' = s\<lparr>wpc := W_Range, trace := trace s @ map (Pair WriterTask)
               (write_call (ItemMessage (Message 0)) (Some (OtherError ''broken pipe'')))\<rparr>"
    and "events_out (trace s') = events_out (trace s)" and "writerDone s' = ChanOpen"
    by blast
  with e v show ?thesis by auto
qed

text \<open>
  Claim C10. An item that is neither a Message nor a Frame is received like any other
  (the client's send completes). At the type switch no case matches: whatever a codec
  write would have returned, the step only moves the writer back to the head of its loop;
  the log, and with it the codec and \<^verbatim>\<open>eventsOut\<close>, is untouched.
\<close>

theorem other_item_discarded:
  assumes "writec c = ChanOpen" and "donec c = ChanOpen"
    and "exec self ts (run_init c) = Some s"
  shows "(wpc s = W_Range \<and> writec (ch s) = ChanOpen \<longrightarrow>
            (\<exists>s1. step self (WriterDoes (WRecv (ItemOther x))) s = Some s1 \<and>
                  wpc s1 = W_Switch (ItemOther x) \<and>
                  trace s1 = trace s @ [(WriterTask, Recv (ItemOther x))])) \<and>
         (wpc s = W_Switch (ItemOther x) \<longrightarrow>
            (\<forall>r. step self (WriterDoes (WSwitch r)) s = Some (s\<lparr>wpc := W_Range\<rparr>)) \<and>
            write_call (ItemOther x) None = [])"
proof -
  have y: "sync_inv s"
    using assms(1-3) by (rule reachable_sync)
  then have np: "\<not> panicked s" and wd: "wpc s \<noteq> W_Returned \<longrightarrow> writerDone s = ChanOpen"
    by (auto simp: sync_inv_def intro: chan.exhaust)
  then show ?thesis
    by (auto simp: step_def writer_step_def logs_def)
qed

lemma exec_schedOther:
  "\<exists>s. exec 7 schedOther (run_init chan0) = Some s \<and> wpc s = W_Switch (ItemOther 5)"
  by (simp add: schedOther_def run_simps)

theorem other_item_discarded_witness:
  "\<exists>s. exec 7 schedOther (run_init chan0) = Some s \<and> wpc s = W_Switch (ItemOther 5) \<and>
       step 7 (WriterDoes (WSwitch (Some (OtherError ''unused'')))) s = Some (s\<lparr>wpc := W_Range\<rparr>)"
proof -
  obtain s where e: "exec 7 schedOther (run_init chan0) = Some s"
    and w: "wpc s = W_Switch (ItemOther 5)"
    using exec_schedOther by blast
  from other_item_discarded[OF chan0_fresh e, of 5] w e
  show ?thesis by blast
qed

end
